theory Spec2Isabelle
  imports Main
begin

section \<open>Hunks, chains and vectors\<close>

text \<open>
  The unit verified here is \<^verbatim>\<open>ngx_freebsd_sendfile_chain\<close> of
  \<^verbatim>\<open>src/os/unix/ngx_freebsd_sendfile_chain.c\<close>. Addresses, file offsets and byte counts
  are integers; the null pointer is the address 0. Cursors and counts are taken to lie in
  the range of their C types, so no arithmetic of the function wraps around.
\<close>

datatype hunk_flag =
    NGX_HUNK_IN_MEMORY | NGX_HUNK_TEMP | NGX_HUNK_MEMORY | NGX_HUNK_MMAP
  | NGX_HUNK_RECYCLED | NGX_HUNK_FILE | NGX_HUNK_FLUSH | NGX_HUNK_LAST

text \<open>
  A hunk (\<^verbatim>\<open>ngx_hunk_t\<close>): the field \<^verbatim>\<open>type\<close> is a word of flag bits, modelled as the set
  of the flags that are on, so that the C test \<^verbatim>\<open>h->type & F\<close> is \<open>F \<in> type h\<close>.
  \<open>file_fd h\<close> is \<^verbatim>\<open>h->file->fd\<close>. The field \<^verbatim>\<open>last\<close> is named \<open>last_h\<close>.
\<close>

record ngx_hunk =
  type :: "hunk_flag set"
  pos :: int
  last_h :: int
  file_pos :: int
  file_last :: int
  file_fd :: int

text \<open>
  A chain (\<^verbatim>\<open>ngx_chain_t *\<close>) is the list of the hunks of its links, in order; the null
  chain is the empty list, and \<^verbatim>\<open>cl->next\<close> is the tail of the list. Every chain pointer
  the function computes points into the chain it was given, so a pointer is the suffix of
  the chain that starts at its link, and two such pointers are equal exactly when their
  suffixes have the same length. Links are taken not to share hunks.
\<close>

type_synonym ngx_chain = "ngx_hunk list"

definition NULL :: int where
  "NULL = 0"

text \<open>
  Modelled from the spec: the header \<^verbatim>\<open>ngx_hunk.h\<close>, with the flag bits and the macros
  \<^verbatim>\<open>ngx_hunk_special\<close>, \<^verbatim>\<open>ngx_hunk_in_memory_only\<close> and \<^verbatim>\<open>ngx_hunk_size\<close>, is not among the
  sources. A special hunk carries no bytes: it has marker flags only (flush, last). A hunk
  is in memory only when its in-memory flag is on and its file flag is off. The size of a
  hunk is end minus start of the cursor pair that applies: the memory pair when the hunk is
  in memory, the file pair otherwise.
\<close>

definition ngx_hunk_special :: "ngx_hunk \<Rightarrow> bool" where
  "ngx_hunk_special h \<longleftrightarrow> type h \<subseteq> {NGX_HUNK_FLUSH, NGX_HUNK_LAST}"

definition ngx_hunk_in_memory_only :: "ngx_hunk \<Rightarrow> bool" where
  "ngx_hunk_in_memory_only h \<longleftrightarrow> NGX_HUNK_IN_MEMORY \<in> type h \<and> NGX_HUNK_FILE \<notin> type h"

definition ngx_hunk_size :: "ngx_hunk \<Rightarrow> int" where
  "ngx_hunk_size h =
     (if NGX_HUNK_IN_MEMORY \<in> type h then last_h h - pos h else file_last h - file_pos h)"

record iovec =
  iov_base :: int
  iov_len :: int

section \<open>The connection, the platform and the system calls\<close>

text \<open>
  The fields of \<^verbatim>\<open>ngx_connection_t\<close> the function touches; \<open>write_ready\<close>, \<open>write_error\<close>
  and \<open>write_kq_eof\<close> are \<^verbatim>\<open>c->write->ready\<close>, \<^verbatim>\<open>c->write->error\<close> and \<^verbatim>\<open>c->write->kq_eof\<close>.
\<close>

record ngx_connection =
  fd :: int
  sent :: int
  tcp_nopush :: int
  write_ready :: bool
  write_error :: bool
  write_kq_eof :: bool

text \<open>
  The constants of the platform: \<open>have_kqueue_event\<close> says that the code under
  \<^verbatim>\<open>HAVE_KQUEUE\<close> is compiled and \<^verbatim>\<open>ngx_event_flags & NGX_HAVE_KQUEUE_EVENT\<close> holds.
\<close>

record platform =
  IOV_MAX :: nat
  have_kqueue_event :: bool
  ngx_freebsd_use_tcp_nopush :: int
  ngx_freebsd_sendfile_nbytes_bug :: int

datatype ngx_err = NGX_EINTR | NGX_EAGAIN | Errno int

definition NGX_ERROR :: int where
  "NGX_ERROR = - 1"

text \<open>
  What the world answers during one pass of the \<^verbatim>\<open>do ... while\<close> loop:
  whether the pool serves the two \<^verbatim>\<open>ngx_init_array\<close> calls, how many \<^verbatim>\<open>ngx_push_array\<close>
  calls it serves before one returns null, the result and \<^verbatim>\<open>ngx_errno\<close> of
  \<^verbatim>\<open>ngx_tcp_nopush\<close> (read only when the call is made), and the result, \<^verbatim>\<open>ngx_errno\<close> and
  reported byte count of the transfer call: \<open>xfer_rc\<close> is what \<^verbatim>\<open>sendfile\<close> or \<^verbatim>\<open>writev\<close>
  returns, \<open>xfer_sent\<close> what \<^verbatim>\<open>sendfile\<close> stores through its \<^verbatim>\<open>&sent\<close> argument.
\<close>

record attempt_env =
  init_header_ok :: bool
  init_trailer_ok :: bool
  push_avail :: nat
  nopush_rc :: int
  nopush_errno :: ngx_err
  xfer_rc :: int
  xfer_errno :: ngx_err
  xfer_sent :: int

text \<open>
  The system calls made, with their arguments: \<open>Sendfile file_fd socket offset nbytes
  headers trailers\<close>, \<open>Writev socket vector\<close>, \<open>Tcp_nopush socket\<close>.
\<close>

datatype syscall =
    Tcp_nopush int
  | Sendfile int int int int "iovec list" "iovec list"
  | Writev int "iovec list"

section \<open>The chain classifier (lines 65 to 161)\<close>

text \<open>
  The three outcomes of a step that may leave the function: it goes on with a value, it
  returns \<^verbatim>\<open>NGX_CHAIN_ERROR\<close> (\<^verbatim>\<open>ngx_test_null\<close> saw a null pointer), or it dereferences
  the null pointer \<^verbatim>\<open>iov\<close>.
\<close>

datatype 'a step = Continue 'a | Return_error | Null_dereference

text \<open>
  Lines 82 to 102. \<open>header\<close> is the array built so far (\<^verbatim>\<open>header.nelts\<close> is its length and
  \<^verbatim>\<open>iov\<close> points to its last entry, or is null while it is empty), \<open>avail\<close> the number of
  \<^verbatim>\<open>ngx_push_array\<close> calls that still succeed. The result holds the link the loop stopped at.
\<close>

fun header_loop ::
  "nat \<Rightarrow> nat \<Rightarrow> int \<Rightarrow> iovec list \<Rightarrow> int \<Rightarrow> ngx_chain \<Rightarrow> (iovec list \<times> int \<times> nat \<times> ngx_chain) step"
where
  "header_loop iov_max avail prev header hsize [] = Continue (header, hsize, avail, [])"
| "header_loop iov_max avail prev header hsize (h # cl) =
     (if \<not> length header < iov_max then Continue (header, hsize, avail, h # cl)
      else if ngx_hunk_special h then header_loop iov_max avail prev header hsize cl
      else if \<not> ngx_hunk_in_memory_only h then Continue (header, hsize, avail, h # cl)
      else if prev = pos h then
        (if header = [] then Null_dereference
         else header_loop iov_max avail (last_h h)
                (butlast header @ [(last header)\<lparr>iov_len := iov_len (last header) + (last_h h - pos h)\<rparr>])
                (hsize + (last_h h - pos h)) cl)
      else
        (case avail of
           0 \<Rightarrow> Return_error
         | Suc avail' \<Rightarrow>
             header_loop iov_max avail' (last_h h)
               (header @ [\<lparr>iov_base = pos h, iov_len = last_h h - pos h\<rparr>])
               (hsize + (last_h h - pos h)) cl))"

text \<open>Lines 114 to 124: \<open>ffd\<close> is \<^verbatim>\<open>file->file->fd\<close>.\<close>

fun file_loop :: "int \<Rightarrow> int \<Rightarrow> int \<Rightarrow> ngx_chain \<Rightarrow> int \<times> ngx_chain" where
  "file_loop ffd fprev fsize [] = (fsize, [])"
| "file_loop ffd fprev fsize (h # cl) =
     (if NGX_HUNK_FILE \<in> type h then
        (if ffd \<noteq> file_fd h \<or> fprev \<noteq> file_pos h then (fsize, h # cl)
         else file_loop ffd (file_last h) (fsize + (file_last h - file_pos h)) cl)
      else (fsize, h # cl))"

text \<open>Lines 133 to 153.\<close>

fun trailer_loop ::
  "nat \<Rightarrow> nat \<Rightarrow> int \<Rightarrow> iovec list \<Rightarrow> ngx_chain \<Rightarrow> (iovec list \<times> nat \<times> ngx_chain) step"
where
  "trailer_loop iov_max avail prev trailer [] = Continue (trailer, avail, [])"
| "trailer_loop iov_max avail prev trailer (h # cl) =
     (if \<not> length trailer < iov_max then Continue (trailer, avail, h # cl)
      else if ngx_hunk_special h then trailer_loop iov_max avail prev trailer cl
      else if \<not> ngx_hunk_in_memory_only h then Continue (trailer, avail, h # cl)
      else if prev = pos h then
        (if trailer = [] then Null_dereference
         else trailer_loop iov_max avail (last_h h)
                (butlast trailer @ [(last trailer)\<lparr>iov_len := iov_len (last trailer) + (last_h h - pos h)\<rparr>])
                cl)
      else
        (case avail of
           0 \<Rightarrow> Return_error
         | Suc avail' \<Rightarrow>
             trailer_loop iov_max avail' (last_h h)
               (trailer @ [\<lparr>iov_base = pos h, iov_len = last_h h - pos h\<rparr>]) cl))"

text \<open>
  What lines 65 to 161 compute: the two vectors, \<^verbatim>\<open>hsize\<close>, the hunk \<^verbatim>\<open>file\<close> (as \<open>file_hunk\<close>;
  \<open>None\<close> is the null pointer), \<^verbatim>\<open>fsize\<close> and the tail.
\<close>

record classified =
  header :: "iovec list"
  hsize :: int
  file_hunk :: "ngx_hunk option"
  fsize :: int
  trailer :: "iovec list"
  tail :: ngx_chain

definition classify :: "platform \<Rightarrow> attempt_env \<Rightarrow> ngx_chain \<Rightarrow> classified step" where
  "classify P e in_chain =
     (if \<not> init_header_ok e \<or> \<not> init_trailer_ok e then Return_error
      else
        case header_loop (IOV_MAX P) (push_avail e) NULL [] 0 in_chain of
          Null_dereference \<Rightarrow> Null_dereference
        | Return_error \<Rightarrow> Return_error
        | Continue (hdr, hs, avail, cl) \<Rightarrow>
            (case cl of
               [] \<Rightarrow> Continue \<lparr>header = hdr, hsize = hs, file_hunk = None, fsize = 0,
                               trailer = [], tail = []\<rparr>
             | h # cl' \<Rightarrow>
                 if NGX_HUNK_FILE \<in> type h then
                   (case file_loop (file_fd h) (file_last h) (file_last h - file_pos h) cl' of
                      (fs, cl'') \<Rightarrow>
                        (case trailer_loop (IOV_MAX P) avail NULL [] cl'' of
                           Null_dereference \<Rightarrow> Null_dereference
                         | Return_error \<Rightarrow> Return_error
                         | Continue (trl, avail', cl''') \<Rightarrow>
                             Continue \<lparr>header = hdr, hsize = hs, file_hunk = Some h, fsize = fs,
                                       trailer = trl, tail = cl'''\<rparr>))
                 else Continue \<lparr>header = hdr, hsize = hs, file_hunk = None, fsize = 0,
                                trailer = [], tail = h # cl'\<rparr>))"

section \<open>The transfer dispatcher (lines 163 to 261)\<close>

text \<open>
  A stretch of the loop body either goes on with a value or executes
  \<^verbatim>\<open>return NGX_CHAIN_ERROR\<close>, leaving the connection and the calls made so far.
  \<^verbatim>\<open>ngx_connection_error\<close> and the \<^verbatim>\<open>ngx_log_*\<close> macros only write to the log.
\<close>

datatype 'a flow = Goes_on 'a | Returns_error ngx_connection "syscall list"

text \<open>Lines 165 to 187.\<close>

definition enable_nopush ::
  "platform \<Rightarrow> attempt_env \<Rightarrow> ngx_connection \<Rightarrow> syscall list \<Rightarrow> (ngx_connection \<times> syscall list) flow"
where
  "enable_nopush P e c calls =
     (if ngx_freebsd_use_tcp_nopush P \<noteq> 0 \<and> tcp_nopush c = 0 then
        (if nopush_rc e = NGX_ERROR then
           (if nopush_errno e \<noteq> NGX_EINTR then
              Returns_error (c\<lparr>write_error := True\<rparr>) (calls @ [Tcp_nopush (fd c)])
            else Goes_on (c, calls @ [Tcp_nopush (fd c)]))
         else Goes_on (c\<lparr>tcp_nopush := 1\<rparr>, calls @ [Tcp_nopush (fd c)]))
      else Goes_on (c, calls))"

text \<open>
  The result of a transfer call that did not end the function: the connection, the calls
  made, \<^verbatim>\<open>sent\<close>, \<^verbatim>\<open>eintr\<close> and \<^verbatim>\<open>eagain\<close>.
\<close>

type_synonym transfer = "ngx_connection \<times> syscall list \<times> int \<times> bool \<times> bool"

text \<open>Lines 189 to 232; \<open>f\<close> is the hunk \<^verbatim>\<open>file\<close>.\<close>

definition do_sendfile ::
  "platform \<Rightarrow> attempt_env \<Rightarrow> ngx_connection \<Rightarrow> syscall list \<Rightarrow> classified \<Rightarrow> ngx_hunk \<Rightarrow> transfer flow"
where
  "do_sendfile P e c calls k f =
     (let hsize' = (if ngx_freebsd_sendfile_nbytes_bug P = 0 then 0 else hsize k);
          calls' = calls @ [Sendfile (file_fd f) (fd c) (file_pos f) (fsize k + hsize')
                                     (header k) (trailer k)]
      in if xfer_rc e = - 1 then
           (if xfer_errno e = NGX_EAGAIN \<or> xfer_errno e = NGX_EINTR then
              (if xfer_errno e = NGX_EINTR then Goes_on (c, calls', xfer_sent e, True, False)
               else Goes_on (c, calls', xfer_sent e, False, True))
            else Returns_error (c\<lparr>write_error := True\<rparr>) calls')
         else Goes_on (c, calls', xfer_sent e, False, False))"

text \<open>Lines 235 to 259.\<close>

definition do_writev ::
  "attempt_env \<Rightarrow> ngx_connection \<Rightarrow> syscall list \<Rightarrow> classified \<Rightarrow> transfer flow"
where
  "do_writev e c calls k =
     (let calls' = calls @ [Writev (fd c) (header k)];
          sent' = (if xfer_rc e > 0 then xfer_rc e else 0)
      in if xfer_rc e = - 1 then
           (if xfer_errno e = NGX_EAGAIN \<or> xfer_errno e = NGX_EINTR then
              (if xfer_errno e = NGX_EINTR then Goes_on (c, calls', sent', True, False)
               else Goes_on (c, calls', sent', False, False))
            else Returns_error (c\<lparr>write_error := True\<rparr>) calls')
         else Goes_on (c, calls', sent', False, False))"

text \<open>Lines 163 to 261: the branch on \<^verbatim>\<open>file\<close>, then \<^verbatim>\<open>c->sent += sent\<close>.\<close>

definition dispatch ::
  "platform \<Rightarrow> attempt_env \<Rightarrow> ngx_connection \<Rightarrow> syscall list \<Rightarrow> classified \<Rightarrow> transfer flow"
where
  "dispatch P e c calls k =
     (case (case file_hunk k of
              Some f \<Rightarrow>
                (case enable_nopush P e c calls of
                   Returns_error c' calls' \<Rightarrow> Returns_error c' calls'
                 | Goes_on (c', calls') \<Rightarrow> do_sendfile P e c' calls' k f)
            | None \<Rightarrow> do_writev e c calls k) of
        Returns_error c' calls' \<Rightarrow> Returns_error c' calls'
      | Goes_on (c', calls', n, eintr, eagain) \<Rightarrow>
          Goes_on (c'\<lparr>sent := sent c' + n\<rparr>, calls', n, eintr, eagain))"

section \<open>The progress advancer (lines 263 to 300)\<close>

text \<open>Lines 278 to 284: the hunk is sent whole.\<close>

definition retire :: "ngx_hunk \<Rightarrow> ngx_hunk" where
  "retire h =
     (let h1 = (if NGX_HUNK_IN_MEMORY \<in> type h then h\<lparr>pos := last_h h\<rparr> else h)
      in if NGX_HUNK_FILE \<in> type h1 then h1\<lparr>file_pos := file_last h1\<rparr> else h1)"

text \<open>Lines 289 to 295: a part of the hunk is sent.\<close>

definition consume :: "ngx_hunk \<Rightarrow> int \<Rightarrow> ngx_hunk" where
  "consume h n =
     (let h1 = (if NGX_HUNK_IN_MEMORY \<in> type h then h\<lparr>pos := pos h + n\<rparr> else h)
      in if NGX_HUNK_FILE \<in> type h1 then h1\<lparr>file_pos := file_pos h1 + n\<rparr> else h1)"

text \<open>
  Lines 263 to 300. The result is the links the walk has passed, with the cursors it left
  them, and the chain that starts at the link it stopped at: the new \<^verbatim>\<open>in\<close>.
\<close>

fun advance :: "ngx_chain \<Rightarrow> int \<Rightarrow> ngx_chain \<times> ngx_chain" where
  "advance [] n = ([], [])"
| "advance (h # cl) n =
     (if ngx_hunk_special h then
        (case advance cl n of (passed, in') \<Rightarrow> (h # passed, in'))
      else if n = 0 then ([], h # cl)
      else
        (let size = ngx_hunk_size h
         in if n \<ge> size then
              (case advance cl (n - size) of (passed, in') \<Rightarrow> (retire h # passed, in'))
            else ([], consume h n # cl)))"

section \<open>The function\<close>

text \<open>
  What the caller gets: the value returned, the connection, every hunk of the chain it
  passed in (in chain order, with the cursors the function left) and the system calls made.
  \<open>Chain cl\<close> is the return of the pointer \<^verbatim>\<open>in\<close>, whose chain is \<open>cl\<close>: a suffix of \<open>hunks\<close>.
\<close>

datatype chain_ret = NGX_CHAIN_ERROR | Chain ngx_chain

record outcome =
  ret :: chain_ret
  conn :: ngx_connection
  hunks :: ngx_chain
  syscalls :: "syscall list"

text \<open>
  The function does not return when it dereferences a null pointer, and the model does not
  say what it returns when the loop asks for more answers than it was given.
\<close>

datatype fault = Segfault | Answers_exhausted

text \<open>
  Lines 65 to 317, the \<^verbatim>\<open>do ... while\<close> loop, and lines 319 to 323. \<open>walked\<close> holds the links
  in front of \<^verbatim>\<open>in\<close>, which the earlier passes have walked over. One answer of the world is
  used by each pass, so the loop runs as long as the answers last.
\<close>

fun send_loop ::
  "platform \<Rightarrow> attempt_env list \<Rightarrow> ngx_connection \<Rightarrow> syscall list \<Rightarrow> ngx_chain \<Rightarrow> ngx_chain
     \<Rightarrow> fault + outcome"
where
  "send_loop P [] c calls walked in_chain = Inl Answers_exhausted"
| "send_loop P (e # es) c calls walked in_chain =
     (case classify P e in_chain of
        Null_dereference \<Rightarrow> Inl Segfault
      | Return_error \<Rightarrow>
          Inr \<lparr>ret = NGX_CHAIN_ERROR, conn = c, hunks = walked @ in_chain, syscalls = calls\<rparr>
      | Continue k \<Rightarrow>
          (case dispatch P e c calls k of
             Returns_error c' calls' \<Rightarrow>
               Inr \<lparr>ret = NGX_CHAIN_ERROR, conn = c', hunks = walked @ in_chain, syscalls = calls'\<rparr>
           | Goes_on (c', calls', n, eintr, eagain) \<Rightarrow>
               (case advance in_chain n of
                  (passed, in') \<Rightarrow>
                    if eagain then
                      Inr \<lparr>ret = Chain in', conn = c'\<lparr>write_ready := False\<rparr>,
                           hunks = walked @ passed @ in', syscalls = calls'\<rparr>
                    else if (tail k \<noteq> [] \<and> length (tail k) = length in') \<or> eintr then
                      send_loop P es c' calls' (walked @ passed) in'
                    else
                      Inr \<lparr>ret = Chain in',
                           conn = (if in' \<noteq> [] then c'\<lparr>write_ready := False\<rparr> else c'),
                           hunks = walked @ passed @ in', syscalls = calls'\<rparr>)))"

text \<open>Lines 31 to 324.\<close>

definition ngx_freebsd_sendfile_chain ::
  "platform \<Rightarrow> attempt_env list \<Rightarrow> ngx_connection \<Rightarrow> ngx_chain \<Rightarrow> fault + outcome"
where
  "ngx_freebsd_sendfile_chain P es c in_chain =
     (if \<not> write_ready c then
        Inr \<lparr>ret = Chain in_chain, conn = c, hunks = in_chain, syscalls = []\<rparr>
      else if have_kqueue_event P \<and> write_kq_eof c then
        Inr \<lparr>ret = NGX_CHAIN_ERROR, conn = c\<lparr>write_error := True\<rparr>, hunks = in_chain, syscalls = []\<rparr>
      else send_loop P es c [] [] in_chain)"

section \<open>Notions used in the statements\<close>

text \<open>
  A hunk of the data model: a special hunk, a hunk in memory whose start cursor is not
  behind its end, or a file hunk whose start offset is not behind its end.
\<close>

definition hunk_ok :: "ngx_hunk \<Rightarrow> bool" where
  "hunk_ok h \<longleftrightarrow>
     ngx_hunk_special h
     \<or> (NGX_HUNK_IN_MEMORY \<in> type h \<and> pos h \<le> last_h h)
     \<or> (NGX_HUNK_IN_MEMORY \<notin> type h \<and> NGX_HUNK_FILE \<in> type h \<and> file_pos h \<le> file_last h)"

text \<open>The total remaining length of a chain: special hunks count for nothing.\<close>

fun chain_size :: "ngx_chain \<Rightarrow> int" where
  "chain_size [] = 0"
| "chain_size (h # cl) = (if ngx_hunk_special h then 0 else ngx_hunk_size h) + chain_size cl"

text \<open>
  The budget left when the walk over \<open>cl\<close> with the count \<open>n\<close> reaches link \<open>j\<close>, all
  links in front of it having been sent whole.
\<close>

definition budget :: "ngx_chain \<Rightarrow> int \<Rightarrow> nat \<Rightarrow> int" where
  "budget cl n j = n - chain_size (take j cl)"

text \<open>What the walk does to a link it passes: nothing to a special hunk, full retirement otherwise.\<close>

definition pass_over :: "ngx_hunk \<Rightarrow> ngx_hunk" where
  "pass_over h = (if ngx_hunk_special h then h else retire h)"

text \<open>The system calls made up to the end of a stretch of the loop body.\<close>

fun calls_of :: "transfer flow \<Rightarrow> syscall list" where
  "calls_of (Goes_on (c, calls, n, eintr, eagain)) = calls"
| "calls_of (Returns_error c calls) = calls"


text \<open>Whether a system call is the combined transfer \<^verbatim>\<open>sendfile\<close>.\<close>

fun is_sendfile :: "syscall \<Rightarrow> bool" where
  "is_sendfile (Sendfile ffd s off nbytes hdr trl) = True"
| "is_sendfile (Tcp_nopush s) = False"
| "is_sendfile (Writev s v) = False"

subsection \<open>Sample data\<close>

definition memory_hunk :: "int \<Rightarrow> int \<Rightarrow> ngx_hunk" where
  "memory_hunk p l =
     \<lparr>type = {NGX_HUNK_IN_MEMORY, NGX_HUNK_TEMP}, pos = p, last_h = l,
      file_pos = 0, file_last = 0, file_fd = 0\<rparr>"

definition file_segment :: "int \<Rightarrow> int \<Rightarrow> int \<Rightarrow> ngx_hunk" where
  "file_segment d p l =
     \<lparr>type = {NGX_HUNK_FILE}, pos = 0, last_h = 0, file_pos = p, file_last = l, file_fd = d\<rparr>"

definition flush_hunk :: ngx_hunk where
  "flush_hunk =
     \<lparr>type = {NGX_HUNK_FLUSH}, pos = 0, last_h = 0, file_pos = 0, file_last = 0, file_fd = 0\<rparr>"

definition freebsd :: "int \<Rightarrow> platform" where
  "freebsd bug =
     \<lparr>IOV_MAX = 1024, have_kqueue_event = True, ngx_freebsd_use_tcp_nopush = 1,
      ngx_freebsd_sendfile_nbytes_bug = bug\<rparr>"

definition ready_conn :: ngx_connection where
  "ready_conn =
     \<lparr>fd = 7, sent = 0, tcp_nopush = 0, write_ready = True, write_error = False,
      write_kq_eof = False\<rparr>"

text \<open>
  An answer of a world whose pool has room and whose \<^verbatim>\<open>ngx_tcp_nopush\<close> succeeds: the
  transfer call returns \<open>r\<close> with \<^verbatim>\<open>ngx_errno\<close> \<open>err\<close>, and \<^verbatim>\<open>sendfile\<close> reports \<open>n\<close> bytes.
\<close>

definition answer :: "int \<Rightarrow> ngx_err \<Rightarrow> int \<Rightarrow> attempt_env" where
  "answer r err n =
     \<lparr>init_header_ok = True, init_trailer_ok = True, push_avail = 2048, nopush_rc = 0,
      nopush_errno = Errno 0, xfer_rc = r, xfer_errno = err, xfer_sent = n\<rparr>"

lemmas sample_defs =
  memory_hunk_def file_segment_def flush_hunk_def freebsd_def ready_conn_def answer_def

lemmas run_defs =
  ngx_freebsd_sendfile_chain_def classify_def dispatch_def enable_nopush_def do_sendfile_def
  do_writev_def NULL_def NGX_ERROR_def advance.simps

lemmas hunk_defs =
  ngx_hunk_special_def ngx_hunk_in_memory_only_def ngx_hunk_size_def retire_def consume_def
  hunk_ok_def pass_over_def budget_def

section \<open>The progress advancer\<close>

lemma advance_special:
  "ngx_hunk_special h \<Longrightarrow> advance (h # cl) n = (h # fst (advance cl n), snd (advance cl n))"
  by (simp split: prod.splits)

lemma advance_zero: "\<not> ngx_hunk_special h \<Longrightarrow> advance (h # cl) 0 = ([], h # cl)"
  by simp

lemma advance_retire:
  "\<not> ngx_hunk_special h \<Longrightarrow> n \<noteq> 0 \<Longrightarrow> ngx_hunk_size h \<le> n \<Longrightarrow>
   advance (h # cl) n = (retire h # fst (advance cl (n - ngx_hunk_size h)), snd (advance cl (n - ngx_hunk_size h)))"
  by (simp split: prod.splits)

lemma advance_partial:
  "\<not> ngx_hunk_special h \<Longrightarrow> n \<noteq> 0 \<Longrightarrow> n < ngx_hunk_size h \<Longrightarrow>
   advance (h # cl) n = ([], consume h n # cl)"
  by simp

lemma hunk_ok_size: "hunk_ok h \<Longrightarrow> \<not> ngx_hunk_special h \<Longrightarrow> 0 \<le> ngx_hunk_size h"
  by (auto simp: hunk_ok_def ngx_hunk_size_def)

lemma retire_size: "hunk_ok h \<Longrightarrow> \<not> ngx_hunk_special h \<Longrightarrow> ngx_hunk_size (retire h) = 0"
  by (auto simp: hunk_ok_def ngx_hunk_size_def retire_def Let_def)

lemma retire_type [simp]: "type (retire h) = type h"
  by (simp add: retire_def Let_def)

lemma consume_type [simp]: "type (consume h n) = type h"
  by (simp add: consume_def Let_def)

lemma retire_special [simp]: "ngx_hunk_special (retire h) = ngx_hunk_special h"
  by (simp add: ngx_hunk_special_def)

lemma consume_special [simp]: "ngx_hunk_special (consume h n) = ngx_hunk_special h"
  by (simp add: ngx_hunk_special_def)

lemma consume_size:
  "hunk_ok h \<Longrightarrow> \<not> ngx_hunk_special h \<Longrightarrow> ngx_hunk_size (consume h n) = ngx_hunk_size h - n"
  by (auto simp: hunk_ok_def ngx_hunk_size_def consume_def Let_def)

lemma consume_zero [simp]: "consume h 0 = h"
  by (simp add: consume_def Let_def)

lemma chain_size_nonneg: "list_all hunk_ok cl \<Longrightarrow> 0 \<le> chain_size cl"
  by (induction cl) (auto simp: hunk_ok_size)

declare advance.simps(2) [simp del]

lemma advance_cases:
  assumes "advance (h # cl) n = (passed, rest)"
  obtains
    (special) passed' where "ngx_hunk_special h" "advance cl n = (passed', rest)" "passed = h # passed'"
  | (zero) "\<not> ngx_hunk_special h" "n = 0" "passed = []" "rest = h # cl"
  | (retire) passed' where "\<not> ngx_hunk_special h" "n \<noteq> 0" "ngx_hunk_size h \<le> n"
      "advance cl (n - ngx_hunk_size h) = (passed', rest)" "passed = retire h # passed'"
  | (partial) "\<not> ngx_hunk_special h" "n \<noteq> 0" "n < ngx_hunk_size h" "passed = []"
      "rest = consume h n # cl"
proof (cases "ngx_hunk_special h")
  case True
  with assms special show ?thesis
    by (cases "advance cl n") (simp add: advance_special)
next
  case False
  consider "n = 0" | "n \<noteq> 0" "ngx_hunk_size h \<le> n" | "n \<noteq> 0" "n < ngx_hunk_size h"
    by linarith
  then show ?thesis
  proof cases
    case 1
    with assms False zero show ?thesis by (simp add: advance_zero)
  next
    case 2
    with assms False retire show ?thesis
      by (cases "advance cl (n - ngx_hunk_size h)") (simp add: advance_retire)
  next
    case 3
    with assms False partial show ?thesis by (simp add: advance_partial)
  qed
qed

lemma advance_passed:
  "advance cl n = (passed, rest) \<Longrightarrow> passed = map pass_over (take (length passed) cl)"
proof (induction cl arbitrary: n passed rest)
  case Nil
  then show ?case by simp
next
  case (Cons h cl)
  from Cons.prems show ?case
  proof (cases rule: advance_cases)
    case (special passed')
    then show ?thesis using Cons.IH [of n passed' rest] by (simp add: pass_over_def)
  next
    case zero
    then show ?thesis by simp
  next
    case (retire passed')
    then show ?thesis
      using Cons.IH [of "n - ngx_hunk_size h" passed' rest] by (simp add: pass_over_def)
  next
    case partial
    then show ?thesis by simp
  qed
qed

lemma advance_rest:
  "advance cl n = (passed, rest) \<Longrightarrow>
   rest = (case drop (length passed) cl of
             [] \<Rightarrow> []
           | h # cl' \<Rightarrow> consume h (budget cl n (length passed)) # cl')"
proof (induction cl arbitrary: n passed rest)
  case Nil
  then show ?case by simp
next
  case (Cons h cl)
  from Cons.prems show ?case
  proof (cases rule: advance_cases)
    case (special passed')
    then show ?thesis using Cons.IH [of n passed' rest]
      by (simp add: budget_def split: list.splits)
  next
    case zero
    then show ?thesis by (simp add: budget_def)
  next
    case (retire passed')
    then show ?thesis
      using Cons.IH [of "n - ngx_hunk_size h" passed' rest]
      by (simp add: budget_def algebra_simps split: list.splits)
  next
    case partial
    then show ?thesis by (simp add: budget_def)
  qed
qed

lemma advance_length:
  "advance cl n = (passed, rest) \<Longrightarrow> length passed + length rest = length cl"
proof (induction cl arbitrary: n passed rest)
  case Nil
  then show ?case by auto
next
  case (Cons h cl)
  from Cons.prems show ?case
  proof (cases rule: advance_cases)
    case (special passed')
    then show ?thesis using Cons.IH [of n passed' rest] by simp
  next
    case zero
    then show ?thesis by simp
  next
    case (retire passed')
    then show ?thesis using Cons.IH [of "n - ngx_hunk_size h" passed' rest] by simp
  next
    case partial
    then show ?thesis by simp
  qed
qed

lemma advance_passed_budget:
  "advance cl n = (passed, rest) \<Longrightarrow> j < length passed \<Longrightarrow> \<not> ngx_hunk_special (cl ! j) \<Longrightarrow>
   budget cl n j \<noteq> 0 \<and> ngx_hunk_size (cl ! j) \<le> budget cl n j"
proof (induction cl arbitrary: n passed rest j)
  case Nil
  then show ?case by simp
next
  case (Cons h cl)
  from Cons.prems(1) show ?case
  proof (cases rule: advance_cases)
    case (special passed')
    show ?thesis
    proof (cases j)
      case 0
      with Cons.prems special show ?thesis by simp
    next
      case (Suc j')
      with Cons.prems special Cons.IH [of n passed' rest j'] show ?thesis
        by (simp add: budget_def)
    qed
  next
    case zero
    with Cons.prems show ?thesis by simp
  next
    case (retire passed')
    show ?thesis
    proof (cases j)
      case 0
      with retire show ?thesis by (simp add: budget_def)
    next
      case (Suc j')
      with Cons.prems retire Cons.IH [of "n - ngx_hunk_size h" passed' rest j'] show ?thesis
        by (simp add: budget_def algebra_simps)
    qed
  next
    case partial
    with Cons.prems show ?thesis by simp
  qed
qed

lemma advance_stop:
  "advance cl n = (passed, rest) \<Longrightarrow> length passed < length cl \<Longrightarrow>
   \<not> ngx_hunk_special (cl ! length passed)
   \<and> (budget cl n (length passed) = 0
        \<or> budget cl n (length passed) < ngx_hunk_size (cl ! length passed))"
proof (induction cl arbitrary: n passed rest)
  case Nil
  then show ?case by simp
next
  case (Cons h cl)
  from Cons.prems(1) show ?case
  proof (cases rule: advance_cases)
    case (special passed')
    with Cons.prems Cons.IH [of n passed' rest] show ?thesis by (simp add: budget_def)
  next
    case zero
    then show ?thesis by (simp add: budget_def)
  next
    case (retire passed')
    with Cons.prems Cons.IH [of "n - ngx_hunk_size h" passed' rest] show ?thesis
      by (simp add: budget_def algebra_simps)
  next
    case partial
    then show ?thesis by (simp add: budget_def)
  qed
qed

lemma advance_sizes:
  "advance cl n = (passed, rest) \<Longrightarrow> list_all hunk_ok cl \<Longrightarrow> 0 \<le> n \<Longrightarrow> n \<le> chain_size cl \<Longrightarrow>
   chain_size passed = 0 \<and> chain_size rest = chain_size cl - n"
proof (induction cl arbitrary: n passed rest)
  case Nil
  then show ?case by auto
next
  case (Cons h cl)
  from Cons.prems(1) show ?case
  proof (cases rule: advance_cases)
    case (special passed')
    with Cons.prems Cons.IH [of n passed' rest] show ?thesis by simp
  next
    case zero
    then show ?thesis by simp
  next
    case (retire passed')
    with Cons.prems Cons.IH [of "n - ngx_hunk_size h" passed' rest] show ?thesis
      by (simp add: retire_size)
  next
    case partial
    with Cons.prems show ?thesis by (simp add: consume_size)
  qed
qed

text \<open>
  C1, as the code has it. For a chain of hunks of the data model and a count \<open>n\<close> between 0
  and the total remaining length, the walk of lines 263 to 298 passes a front part of the
  chain and stops at the link behind it. Every hunk passed is left alone when special and
  fully retired otherwise, and each retired hunk was reached with a nonzero budget that
  covers its remaining length. The walk stops at the first link that is not special and is
  reached with the budget exhausted or with a budget strictly below its remaining length:
  this link becomes the new head, its start cursors advanced by exactly the budget (if the
  chain ends first, the new head is null). Special hunks take nothing from the budget, and
  the total remaining length drops by exactly \<open>n\<close>.
\<close>

theorem advance_consumes_count:
  assumes "advance cl n = (passed, rest)"
    and "list_all hunk_ok cl" and "0 \<le> n" and "n \<le> chain_size cl"
  shows "length passed + length rest = length cl
    \<and> passed = map pass_over (take (length passed) cl)
    \<and> (\<forall>j < length passed. \<not> ngx_hunk_special (cl ! j) \<longrightarrow>
          budget cl n j \<noteq> 0 \<and> ngx_hunk_size (cl ! j) \<le> budget cl n j)
    \<and> rest = (case drop (length passed) cl of
                [] \<Rightarrow> []
              | h # cl' \<Rightarrow> consume h (budget cl n (length passed)) # cl')
    \<and> (length passed < length cl \<longrightarrow>
          \<not> ngx_hunk_special (cl ! length passed)
          \<and> (budget cl n (length passed) = 0
               \<or> budget cl n (length passed) < ngx_hunk_size (cl ! length passed)))
    \<and> chain_size passed = 0
    \<and> chain_size rest = chain_size cl - n"
  using advance_length [OF assms(1)] advance_passed [OF assms(1)] advance_rest [OF assms(1)]
    advance_passed_budget [OF assms(1)] advance_stop [OF assms(1)] advance_sizes [OF assms]
  by blast

theorem advance_consumes_count_witness:
  "advance [memory_hunk 100 104, flush_hunk, memory_hunk 200 200, memory_hunk 300 305] 6
     = ([memory_hunk 104 104, flush_hunk, memory_hunk 200 200], [memory_hunk 302 305])
   \<and> list_all hunk_ok [memory_hunk 100 104, flush_hunk, memory_hunk 200 200, memory_hunk 300 305]
   \<and> (0::int) \<le> 6
   \<and> 6 \<le> chain_size [memory_hunk 100 104, flush_hunk, memory_hunk 200 200, memory_hunk 300 305]
   \<and> chain_size [memory_hunk 302 305]
       = chain_size [memory_hunk 100 104, flush_hunk, memory_hunk 200 200, memory_hunk 300 305] - 6"
proof -
  let ?cl = "[memory_hunk 100 104, flush_hunk, memory_hunk 200 200, memory_hunk 300 305]"
  have run: "advance ?cl 6
      = ([memory_hunk 104 104, flush_hunk, memory_hunk 200 200], [memory_hunk 302 305])"
    by (simp add: advance.simps sample_defs hunk_defs)
  have ok: "list_all hunk_ok ?cl"
    by (simp add: sample_defs hunk_defs)
  have le: "6 \<le> chain_size ?cl"
    by (simp add: sample_defs hunk_defs)
  have zero: "(0::int) \<le> 6"
    by simp
  from advance_consumes_count [OF run ok zero le]
  have "chain_size [memory_hunk 302 305] = chain_size ?cl - 6"
    by blast
  with run ok zero le show ?thesis
    by blast
qed

text \<open>
  C1 as stated fails where a hunk with nothing left is reached with the budget exhausted.
  In the chain of a 4-byte hunk, an empty hunk and a 5-byte hunk, with the count 4, the
  walk stops at the empty hunk, whose remaining length 0 does not exceed the budget 0: the
  new head is the second link, and not the third, the first whose remaining length
  strictly exceeds the budget.
\<close>

theorem advance_head_counterexample:
  "4 \<le> chain_size [memory_hunk 100 104, memory_hunk 200 200, memory_hunk 300 305]
   \<and> advance [memory_hunk 100 104, memory_hunk 200 200, memory_hunk 300 305] 4
       = ([memory_hunk 104 104], [memory_hunk 200 200, memory_hunk 300 305])
   \<and> budget [memory_hunk 100 104, memory_hunk 200 200, memory_hunk 300 305] 4 1 = 0
   \<and> ngx_hunk_size (memory_hunk 200 200) = 0
   \<and> budget [memory_hunk 100 104, memory_hunk 200 200, memory_hunk 300 305] 4 2 = 0
   \<and> ngx_hunk_size (memory_hunk 300 305) = 5"
  by (simp add: advance.simps sample_defs hunk_defs)

section \<open>The requested total of the combined transfer\<close>

lemma extend_last_sum:
  "hdr \<noteq> [] \<Longrightarrow>
   sum_list (map iov_len (butlast hdr @ [(last hdr)\<lparr>iov_len := iov_len (last hdr) + d\<rparr>]))
     = sum_list (map iov_len hdr) + d"
proof -
  assume "hdr \<noteq> []"
  then have "hdr = butlast hdr @ [last hdr]" by simp
  then have "sum_list (map iov_len hdr) = sum_list (map iov_len (butlast hdr)) + iov_len (last hdr)"
    by (metis (no_types, lifting) map_append sum_list.append list.simps(8,9) sum_list.Cons sum_list.Nil add.right_neutral)
  then show ?thesis by simp
qed

lemma header_loop_hsize:
  "header_loop m a prev hdr hs cl = Continue (hdr', hs', a', cl') \<Longrightarrow>
   hs' - sum_list (map iov_len hdr') = hs - sum_list (map iov_len hdr)"
proof (induction cl arbitrary: a prev hdr hs)
  case Nil
  then show ?case by simp
next
  case (Cons h cl)
  show ?case
  proof (cases "length hdr < m \<and> \<not> ngx_hunk_special h \<and> ngx_hunk_in_memory_only h")
    case False
    with Cons show ?thesis by (auto split: if_splits)
  next
    case True
    show ?thesis
    proof (cases "prev = pos h")
      case same: True
      with True Cons.prems have ne: "hdr \<noteq> []" by (auto split: if_splits)
      with same True Cons.prems
      have "header_loop m a (last_h h)
              (butlast hdr @ [(last hdr)\<lparr>iov_len := iov_len (last hdr) + (last_h h - pos h)\<rparr>])
              (hs + (last_h h - pos h)) cl = Continue (hdr', hs', a', cl')"
        by simp
      from Cons.IH [OF this] extend_last_sum [OF ne, of "last_h h - pos h"] show ?thesis
        by linarith
    next
      case differ: False
      with True Cons.prems obtain a0 where a: "a = Suc a0"
        by (cases a) auto
      with differ True Cons.prems
      have "header_loop m a0 (last_h h) (hdr @ [\<lparr>iov_base = pos h, iov_len = last_h h - pos h\<rparr>])
              (hs + (last_h h - pos h)) cl = Continue (hdr', hs', a', cl')"
        by simp
      from Cons.IH [OF this] show ?thesis by simp
    qed
  qed
qed

lemma classify_hsize:
  "classify P e cl = Continue k \<Longrightarrow> hsize k = sum_list (map iov_len (header k))"
  by (auto simp: classify_def split: if_splits step.splits list.splits prod.splits
      dest!: header_loop_hsize)

text \<open>
  C2, as the code has it. \<^verbatim>\<open>hsize\<close> is the sum of the lengths of the header entries, and
  \<^verbatim>\<open>fsize\<close> the length of the file region. Lines 194 to 206 pass \<^verbatim>\<open>sendfile\<close> the
  total \<^verbatim>\<open>fsize + hsize\<close> when \<^verbatim>\<open>ngx_freebsd_sendfile_nbytes_bug\<close> is set (nonzero): on a
  platform with the bug the header length is included. When the flag is zero the total is
  \<^verbatim>\<open>fsize\<close> alone.
\<close>

theorem sendfile_requested_total:
  assumes "classify P e cl = Continue k"
  shows "calls_of (do_sendfile P e c calls k f)
    = calls @ [Sendfile (file_fd f) (fd c) (file_pos f)
                (if ngx_freebsd_sendfile_nbytes_bug P = 0 then fsize k
                 else fsize k + sum_list (map iov_len (header k)))
                (header k) (trailer k)]"
  using classify_hsize [OF assms] by (simp add: do_sendfile_def Let_def)

theorem sendfile_requested_total_witness:
  "classify (freebsd 1) (answer 0 (Errno 0) 14) [memory_hunk 100 104, file_segment 3 0 10]
     = Continue \<lparr>header = [\<lparr>iov_base = 100, iov_len = 4\<rparr>], hsize = 4,
                 file_hunk = Some (file_segment 3 0 10), fsize = 10, trailer = [], tail = []\<rparr>
   \<and> calls_of (do_sendfile (freebsd 1) (answer 0 (Errno 0) 14) ready_conn []
        \<lparr>header = [\<lparr>iov_base = 100, iov_len = 4\<rparr>], hsize = 4,
         file_hunk = Some (file_segment 3 0 10), fsize = 10, trailer = [], tail = []\<rparr>
        (file_segment 3 0 10))
     = [Sendfile 3 7 0 14 [\<lparr>iov_base = 100, iov_len = 4\<rparr>] []]"
proof -
  let ?k = "\<lparr>header = [\<lparr>iov_base = 100, iov_len = 4\<rparr>], hsize = 4,
             file_hunk = Some (file_segment 3 0 10), fsize = 10, trailer = [], tail = []\<rparr>"
  have k: "classify (freebsd 1) (answer 0 (Errno 0) 14)
      [memory_hunk 100 104, file_segment 3 0 10] = Continue ?k"
    by (simp add: run_defs sample_defs hunk_defs)
  from sendfile_requested_total [OF k, of ready_conn "[]" "file_segment 3 0 10"]
  have "calls_of (do_sendfile (freebsd 1) (answer 0 (Errno 0) 14) ready_conn [] ?k
          (file_segment 3 0 10))
      = [Sendfile 3 7 0 14 [\<lparr>iov_base = 100, iov_len = 4\<rparr>] []]"
    by (simp add: sample_defs)
  with k show ?thesis
    by blast
qed

text \<open>
  C2 as stated has the two cases the wrong way round. For a 4-byte header and a 10-byte
  file region, the total requested with the flag set is 14, header included, and with the
  flag clear it is 10, the length of the file region alone.
\<close>

theorem sendfile_total_counterexample:
  "ngx_freebsd_sendfile_chain (freebsd 1) [answer 0 (Errno 0) 14] ready_conn
     [memory_hunk 100 104, file_segment 3 0 10]
   = Inr \<lparr>ret = Chain [],
          conn = \<lparr>fd = 7, sent = 14, tcp_nopush = 1, write_ready = True, write_error = False,
                  write_kq_eof = False\<rparr>,
          hunks = [memory_hunk 104 104, file_segment 3 10 10],
          syscalls = [Tcp_nopush 7, Sendfile 3 7 0 14 [\<lparr>iov_base = 100, iov_len = 4\<rparr>] []]\<rparr>
   \<and> ngx_freebsd_sendfile_chain (freebsd 0) [answer 0 (Errno 0) 14] ready_conn
     [memory_hunk 100 104, file_segment 3 0 10]
   = Inr \<lparr>ret = Chain [],
          conn = \<lparr>fd = 7, sent = 14, tcp_nopush = 1, write_ready = True, write_error = False,
                  write_kq_eof = False\<rparr>,
          hunks = [memory_hunk 104 104, file_segment 3 10 10],
          syscalls = [Tcp_nopush 7, Sendfile 3 7 0 10 [\<lparr>iov_base = 100, iov_len = 4\<rparr>] []]\<rparr>"
  by (simp add: run_defs sample_defs hunk_defs)

section \<open>One pass of the loop\<close>

lemma advance_all_special: "list_all ngx_hunk_special cl \<Longrightarrow> advance cl n = (cl, [])"
  by (induction cl) (simp_all add: advance_special)

lemma advance_zero_count:
  "advance cl 0 = (takeWhile ngx_hunk_special cl, dropWhile ngx_hunk_special cl)"
  by (induction cl) (simp_all add: advance_special advance_zero)

lemma advance_surplus:
  "list_all hunk_ok cl \<Longrightarrow> chain_size cl < n \<Longrightarrow> advance cl n = (map pass_over cl, [])"
proof (induction cl arbitrary: n)
  case Nil
  then show ?case by simp
next
  case (Cons h cl)
  show ?case
  proof (cases "ngx_hunk_special h")
    case True
    with Cons show ?thesis by (simp add: advance_special pass_over_def)
  next
    case False
    from Cons.prems have ok: "hunk_ok h" "list_all hunk_ok cl" by simp_all
    from hunk_ok_size [OF ok(1) False] chain_size_nonneg [OF ok(2)] Cons.prems(2) False
    have n: "n \<noteq> 0" "ngx_hunk_size h \<le> n" "chain_size cl < n - ngx_hunk_size h"
      by simp_all
    from Cons.IH [OF ok(2) n(3)] False n show ?thesis
      by (simp add: advance_retire pass_over_def)
  qed
qed

lemma header_loop_special:
  "list_all ngx_hunk_special cl \<Longrightarrow>
   \<exists>cl'. header_loop m a prev hdr hs cl = Continue (hdr, hs, a, cl') \<and> list_all ngx_hunk_special cl'"
  by (induction cl) auto

lemma special_not_file: "ngx_hunk_special h \<Longrightarrow> NGX_HUNK_FILE \<notin> type h"
  by (auto simp: ngx_hunk_special_def)

lemma classify_special:
  assumes "list_all ngx_hunk_special cl" "init_header_ok e" "init_trailer_ok e"
  shows "\<exists>cl'. classify P e cl = Continue \<lparr>header = [], hsize = 0, file_hunk = None, fsize = 0,
                                            trailer = [], tail = cl'\<rparr>"
proof -
  from header_loop_special [OF assms(1)] obtain cl' where
    h: "header_loop (IOV_MAX P) (push_avail e) NULL [] 0 cl = Continue ([], 0, push_avail e, cl')"
    and s: "list_all ngx_hunk_special cl'"
    by blast
  show ?thesis
  proof (cases cl')
    case Nil
    with h assms show ?thesis by (simp add: classify_def)
  next
    case (Cons x xs)
    with s have "NGX_HUNK_FILE \<notin> type x" by (simp add: special_not_file)
    with h Cons assms show ?thesis by (simp add: classify_def)
  qed
qed

lemma dispatch_conn:
  "dispatch P e c calls k = Goes_on (c', calls', n, eintr, eagain) \<Longrightarrow>
   write_ready c' = write_ready c \<and> write_error c' = write_error c \<and> sent c' = sent c + n
   \<and> fd c' = fd c \<and> write_kq_eof c' = write_kq_eof c"
  by (auto simp: dispatch_def enable_nopush_def do_sendfile_def do_writev_def Let_def
      split: option.splits if_splits flow.splits)

lemma send_loop_pass:
  assumes "classify P e cl = Continue k"
    and "dispatch P e c calls k = Goes_on (c', calls', n, eintr, eagain)"
    and "advance cl n = (passed, in')"
  shows "send_loop P (e # es) c calls walked cl =
    (if eagain then
       Inr \<lparr>ret = Chain in', conn = c'\<lparr>write_ready := False\<rparr>,
            hunks = walked @ passed @ in', syscalls = calls'\<rparr>
     else if (tail k \<noteq> [] \<and> length (tail k) = length in') \<or> eintr then
       send_loop P es c' calls' (walked @ passed) in'
     else
       Inr \<lparr>ret = Chain in', conn = (if in' \<noteq> [] then c'\<lparr>write_ready := False\<rparr> else c'),
            hunks = walked @ passed @ in', syscalls = calls'\<rparr>)"
  using assms by simp

declare send_loop.simps(2) [simp del]

lemma ready_update: "write_ready c \<Longrightarrow> c\<lparr>write_ready := True\<rparr> = c"
  by (cases c) simp

lemma final_pass:
  assumes "write_ready c" and "\<not> (have_kqueue_event P \<and> write_kq_eof c)"
    and "classify P e cl = Continue k"
    and "dispatch P e c [] k = Goes_on (c', calls', n, eintr, eagain)"
    and "advance cl n = (passed, in')"
    and "eagain \<or> \<not> (eintr \<or> (tail k \<noteq> [] \<and> length (tail k) = length in'))"
  shows "ngx_freebsd_sendfile_chain P (e # es) c cl =
    Inr \<lparr>ret = Chain in', conn = c'\<lparr>write_ready := (\<not> eagain \<and> in' = [])\<rparr>,
         hunks = passed @ in', syscalls = calls'\<rparr>"
proof -
  from dispatch_conn [OF assms(4)] assms(1) have "write_ready c'" by simp
  then have c': "c'\<lparr>write_ready := True\<rparr> = c'" by (rule ready_update)
  from assms(1,2) have "ngx_freebsd_sendfile_chain P (e # es) c cl = send_loop P (e # es) c [] [] cl"
    by (auto simp: ngx_freebsd_sendfile_chain_def)
  also from assms(6) c' have "\<dots> = Inr \<lparr>ret = Chain in', conn = c'\<lparr>write_ready := (\<not> eagain \<and> in' = [])\<rparr>,
         hunks = passed @ in', syscalls = calls'\<rparr>"
    by (auto simp: send_loop_pass [OF assms(3,4,5)])
  finally show ?thesis .
qed

lemma any_pass:
  assumes "classify P e cl = Continue k"
    and "dispatch P e c calls k = Goes_on (c', calls', n, eintr, eagain)"
    and "advance cl n = (passed, in')"
    and "eagain \<or> \<not> (eintr \<or> (tail k \<noteq> [] \<and> length (tail k) = length in'))"
  shows "send_loop P (e # es) c calls walked cl =
    Inr \<lparr>ret = Chain in',
         conn = (if eagain \<or> in' \<noteq> [] then c'\<lparr>write_ready := False\<rparr> else c'),
         hunks = walked @ passed @ in', syscalls = calls'\<rparr>"
  using assms(4) by (auto simp: send_loop_pass [OF assms(1,2,3)])

lemma dispatch_eagain:
  "dispatch P e c calls k = Goes_on (c', calls', n, eintr, eagain) \<Longrightarrow>
   (eagain \<longleftrightarrow> file_hunk k \<noteq> None \<and> xfer_rc e = - 1 \<and> xfer_errno e = NGX_EAGAIN)"
  by (auto simp: dispatch_def enable_nopush_def do_sendfile_def do_writev_def Let_def
      split: option.splits if_splits flow.splits)

lemma dispatch_eagain_call:
  "dispatch P e c calls k = Goes_on (c', calls', n, eintr, True) \<Longrightarrow>
   calls' \<noteq> [] \<and> is_sendfile (last calls')"
  by (auto simp: dispatch_def enable_nopush_def do_sendfile_def do_writev_def Let_def
      split: option.splits if_splits flow.splits)

lemma send_loop_nonnull:
  "send_loop P es c calls walked cl = Inr r \<Longrightarrow> ret r = Chain in0 \<Longrightarrow> in0 \<noteq> [] \<Longrightarrow>
   \<not> write_ready (conn r)"
proof (induction es arbitrary: c calls walked cl)
  case Nil
  then show ?case by simp
next
  case (Cons e es)
  from Cons.prems show ?case
    by (auto simp: send_loop.simps(2) split: step.splits flow.splits prod.splits if_splits
        dest: Cons.IH)
qed

lemma send_loop_null:
  "send_loop P es c calls walked cl = Inr r \<Longrightarrow> ret r = Chain [] \<Longrightarrow> write_ready c \<Longrightarrow>
   \<not> write_ready (conn r) \<Longrightarrow> syscalls r \<noteq> [] \<and> is_sendfile (last (syscalls r))"
proof (induction es arbitrary: c calls walked cl)
  case Nil
  then show ?case by simp
next
  case (Cons e es)
  show ?case
  proof (cases "classify P e cl")
    case (Continue k)
    show ?thesis
    proof (cases "dispatch P e c calls k")
      case (Returns_error c' calls')
      with Continue Cons.prems show ?thesis by (auto simp: send_loop.simps(2))
    next
      case (Goes_on t)
      then obtain c' calls' n eintr eagain where
        d: "dispatch P e c calls k = Goes_on (c', calls', n, eintr, eagain)"
        by (cases t) auto
      obtain passed in' where a: "advance cl n = (passed, in')"
        by (cases "advance cl n")
      from dispatch_conn [OF d] Cons.prems(3) have r': "write_ready c'" by simp
      note s = send_loop_pass [OF Continue d a, of es walked]
      show ?thesis
      proof (cases eagain)
        case True
        with s Cons.prems(1) dispatch_eagain_call [of P e c calls k c' calls' n eintr] d
        show ?thesis by auto
      next
        case False
        show ?thesis
        proof (cases "(tail k \<noteq> [] \<and> length (tail k) = length in') \<or> eintr")
          case True
          with False s Cons.prems(1)
          have "send_loop P es c' calls' (walked @ passed) in' = Inr r" by simp
          from Cons.IH [OF this Cons.prems(2) r' Cons.prems(4)] show ?thesis .
        next
          case False
          with \<open>\<not> eagain\<close> s Cons.prems r' show ?thesis by (auto split: if_splits)
        qed
      qed
    qed
  next
    case Return_error
    with Cons.prems show ?thesis by (auto simp: send_loop.simps(2))
  next
    case Null_dereference
    with Cons.prems show ?thesis by (auto simp: send_loop.simps(2))
  qed
qed

text \<open>
  C5, as the code has it. Take any pass of the loop, the first or a later one, that ends
  the loop: its \<^verbatim>\<open>sendfile\<close> reported would-block (the only way \<^verbatim>\<open>eagain\<close> is set;
  \<^verbatim>\<open>writev\<close> never sets it), or its call was not interrupted and the head of the advanced
  chain is not the tail. The function then returns the advanced chain. The
  write-readiness flag is cleared when the returned chain is not null or \<^verbatim>\<open>eagain\<close> is
  set, and left as it was otherwise: so a plain success that leaves a non-null chain
  clears the flag (lines 319 to 321), and a would-block of \<^verbatim>\<open>writev\<close> with a null chain
  does not. Over whole runs of any number of passes: a run that returns a non-null chain
  has cleared the flag, and a run that returns the null chain with the flag cleared ended
  on a \<^verbatim>\<open>sendfile\<close> call.
\<close>

theorem readiness_after_last_pass:
  assumes "classify P e cl = Continue k"
    and "dispatch P e c calls k = Goes_on (c', calls', n, eintr, eagain)"
    and "advance cl n = (passed, in')"
    and "eagain \<or> \<not> (eintr \<or> (tail k \<noteq> [] \<and> length (tail k) = length in'))"
  shows "send_loop P (e # es) c calls walked cl =
      Inr \<lparr>ret = Chain in',
           conn = (if eagain \<or> in' \<noteq> [] then c'\<lparr>write_ready := False\<rparr> else c'),
           hunks = walked @ passed @ in', syscalls = calls'\<rparr>
    \<and> write_ready c' = write_ready c
    \<and> (eagain \<longleftrightarrow> file_hunk k \<noteq> None \<and> xfer_rc e = - 1 \<and> xfer_errno e = NGX_EAGAIN)
    \<and> (write_ready c \<and> \<not> (have_kqueue_event P \<and> write_kq_eof c) \<and> calls = [] \<longrightarrow>
          ngx_freebsd_sendfile_chain P (e # es) c cl =
            Inr \<lparr>ret = Chain in',
                 conn = (if eagain \<or> in' \<noteq> [] then c'\<lparr>write_ready := False\<rparr> else c'),
                 hunks = passed @ in', syscalls = calls'\<rparr>)
    \<and> (\<forall>as c0 cl0 r in0.
          ngx_freebsd_sendfile_chain P as c0 cl0 = Inr r \<and> write_ready c0
          \<and> ret r = Chain in0 \<and> in0 \<noteq> [] \<longrightarrow> \<not> write_ready (conn r))
    \<and> (\<forall>as c0 cl0 r.
          ngx_freebsd_sendfile_chain P as c0 cl0 = Inr r \<and> write_ready c0
          \<and> ret r = Chain [] \<and> \<not> write_ready (conn r) \<longrightarrow>
            syscalls r \<noteq> [] \<and> is_sendfile (last (syscalls r)))"
proof -
  note pass = any_pass [OF assms]
  have top: "ngx_freebsd_sendfile_chain P (e # es) c cl =
            Inr \<lparr>ret = Chain in',
                 conn = (if eagain \<or> in' \<noteq> [] then c'\<lparr>write_ready := False\<rparr> else c'),
                 hunks = passed @ in', syscalls = calls'\<rparr>"
    if "write_ready c" "\<not> (have_kqueue_event P \<and> write_kq_eof c)" "calls = []"
    using that pass [of es "[]"] by (auto simp: ngx_freebsd_sendfile_chain_def)
  have nonnull: "\<not> write_ready (conn r)"
    if "ngx_freebsd_sendfile_chain P as c0 cl0 = Inr r" "write_ready c0" "ret r = Chain in0"
      "in0 \<noteq> []" for as c0 cl0 r in0
    using that
    by (auto simp: ngx_freebsd_sendfile_chain_def split: if_splits dest: send_loop_nonnull)
  have null: "syscalls r \<noteq> [] \<and> is_sendfile (last (syscalls r))"
    if "ngx_freebsd_sendfile_chain P as c0 cl0 = Inr r" "write_ready c0" "ret r = Chain []"
      "\<not> write_ready (conn r)" for as c0 cl0 r
  proof -
    from that(1,2,3) have "send_loop P as c0 [] [] cl0 = Inr r"
      by (auto simp: ngx_freebsd_sendfile_chain_def split: if_splits)
    from send_loop_null [OF this that(3,2,4)] show ?thesis .
  qed
  from pass [of es walked] dispatch_conn [OF assms(2)] dispatch_eagain [OF assms(2)] top nonnull null
  show ?thesis by blast
qed

theorem readiness_after_last_pass_witness:
  "ngx_freebsd_sendfile_chain (freebsd 1) [answer (- 1) NGX_EINTR 0, answer 2 (Errno 0) 0]
     ready_conn [memory_hunk 100 104, memory_hunk 200 204]
   = Inr \<lparr>ret = Chain [memory_hunk 102 104, memory_hunk 200 204],
          conn = \<lparr>fd = 7, sent = 2, tcp_nopush = 0, write_ready = False, write_error = False,
                  write_kq_eof = False\<rparr>,
          hunks = [memory_hunk 102 104, memory_hunk 200 204],
          syscalls = [Writev 7 [\<lparr>iov_base = 100, iov_len = 4\<rparr>, \<lparr>iov_base = 200, iov_len = 4\<rparr>],
                      Writev 7 [\<lparr>iov_base = 100, iov_len = 4\<rparr>, \<lparr>iov_base = 200, iov_len = 4\<rparr>]]\<rparr>"
proof -
  let ?cl = "[memory_hunk 100 104, memory_hunk 200 204]"
  let ?v = "[\<lparr>iov_base = 100, iov_len = 4\<rparr>, \<lparr>iov_base = 200, iov_len = 4\<rparr>]"
  let ?k = "\<lparr>header = ?v, hsize = 8, file_hunk = None, fsize = 0, trailer = [], tail = []\<rparr>"
  let ?e = "answer 2 (Errno 0) 0"
  let ?c = "\<lparr>fd = 7, sent = 2, tcp_nopush = 0, write_ready = True, write_error = False,
             write_kq_eof = False\<rparr>"
  have first: "ngx_freebsd_sendfile_chain (freebsd 1) [answer (- 1) NGX_EINTR 0, ?e] ready_conn ?cl
      = send_loop (freebsd 1) [?e] ready_conn [Writev 7 ?v] [] ?cl"
    by (simp add: run_defs send_loop.simps sample_defs hunk_defs)
  have k: "classify (freebsd 1) ?e ?cl = Continue ?k"
    by (simp add: run_defs sample_defs hunk_defs)
  have d: "dispatch (freebsd 1) ?e ready_conn [Writev 7 ?v] ?k
      = Goes_on (?c, [Writev 7 ?v, Writev 7 ?v], 2, False, False)"
    by (simp add: run_defs sample_defs)
  have a: "advance ?cl 2 = ([], [memory_hunk 102 104, memory_hunk 200 204])"
    by (simp add: run_defs sample_defs hunk_defs)
  have l: "False \<or> \<not> (False \<or> (tail ?k \<noteq> []
      \<and> length (tail ?k) = length [memory_hunk 102 104, memory_hunk 200 204]))"
    by simp
  from readiness_after_last_pass [OF k d a l, of "[]" "[]"]
  have "send_loop (freebsd 1) [?e] ready_conn [Writev 7 ?v] [] ?cl
      = Inr \<lparr>ret = Chain [memory_hunk 102 104, memory_hunk 200 204],
             conn = ?c\<lparr>write_ready := False\<rparr>,
             hunks = [memory_hunk 102 104, memory_hunk 200 204],
             syscalls = [Writev 7 ?v, Writev 7 ?v]\<rparr>"
    by simp
  with first show ?thesis
    by simp
qed

text \<open>
  C5 as stated fails on a plain partial success. \<^verbatim>\<open>writev\<close> sends 2 of the 4 bytes of a
  memory hunk without error; the remaining chain is not null and its head is not the
  tail, which is null. The function returns the advanced chain with the readiness flag
  cleared.
\<close>

theorem readiness_counterexample:
  "ngx_freebsd_sendfile_chain (freebsd 1) [answer 2 (Errno 0) 0] ready_conn [memory_hunk 100 104]
   = Inr \<lparr>ret = Chain [memory_hunk 102 104],
          conn = \<lparr>fd = 7, sent = 2, tcp_nopush = 0, write_ready = False, write_error = False,
                  write_kq_eof = False\<rparr>,
          hunks = [memory_hunk 102 104],
          syscalls = [Writev 7 [\<lparr>iov_base = 100, iov_len = 4\<rparr>]]\<rparr>"
  by (simp add: run_defs send_loop.simps sample_defs hunk_defs)

text \<open>
  C6, as the code has it. When the count reported by a transfer call that was not
  interrupted strictly exceeds the total remaining length of a chain of hunks of the data
  model, the function raises no error: every hunk that is not special is fully retired,
  the null chain is returned, the connection is not marked faulted, the whole reported
  count is added to \<^verbatim>\<open>c->sent\<close> and the surplus is dropped.
\<close>

theorem surplus_count_dropped:
  assumes "write_ready c" and "\<not> (have_kqueue_event P \<and> write_kq_eof c)"
    and "classify P e cl = Continue k"
    and "dispatch P e c [] k = Goes_on (c', calls', n, False, eagain)"
    and "list_all hunk_ok cl" and "chain_size cl < n"
  shows "ngx_freebsd_sendfile_chain P (e # es) c cl =
      Inr \<lparr>ret = Chain [], conn = c'\<lparr>write_ready := \<not> eagain\<rparr>,
           hunks = map pass_over cl, syscalls = calls'\<rparr>
    \<and> write_error c' = write_error c \<and> sent c' = sent c + n"
proof -
  have adv: "advance cl n = (map pass_over cl, [])"
    using assms(5,6) by (rule advance_surplus)
  from final_pass [OF assms(1,2,3,4) adv, of es] dispatch_conn [OF assms(4)]
  show ?thesis by auto
qed

theorem surplus_count_dropped_witness:
  "chain_size [file_segment 3 0 10] < 25
   \<and> ngx_freebsd_sendfile_chain (freebsd 1) [answer 0 (Errno 0) 25] ready_conn [file_segment 3 0 10]
   = Inr \<lparr>ret = Chain [],
          conn = \<lparr>fd = 7, sent = 25, tcp_nopush = 1, write_ready = True, write_error = False,
                  write_kq_eof = False\<rparr>,
          hunks = [file_segment 3 10 10],
          syscalls = [Tcp_nopush 7, Sendfile 3 7 0 10 [] []]\<rparr>"
proof -
  let ?k = "\<lparr>header = [], hsize = 0, file_hunk = Some (file_segment 3 0 10), fsize = 10,
             trailer = [], tail = []\<rparr>"
  let ?c = "\<lparr>fd = 7, sent = 25, tcp_nopush = 1, write_ready = True, write_error = False,
             write_kq_eof = False\<rparr>"
  have r: "write_ready ready_conn"
    and q: "\<not> (have_kqueue_event (freebsd 1) \<and> write_kq_eof ready_conn)"
    by (simp_all add: sample_defs)
  have k: "classify (freebsd 1) (answer 0 (Errno 0) 25) [file_segment 3 0 10] = Continue ?k"
    by (simp add: run_defs sample_defs hunk_defs)
  have d: "dispatch (freebsd 1) (answer 0 (Errno 0) 25) ready_conn [] ?k
      = Goes_on (?c, [Tcp_nopush 7, Sendfile 3 7 0 10 [] []], 25, False, False)"
    by (simp add: run_defs sample_defs)
  have ok: "list_all hunk_ok [file_segment 3 0 10]"
    by (simp add: sample_defs hunk_defs)
  have less: "chain_size [file_segment 3 0 10] < 25"
    by (simp add: sample_defs hunk_defs)
  from surplus_count_dropped [OF r q k d ok less, of "[]"] less show ?thesis
    by (simp add: sample_defs hunk_defs)
qed

text \<open>
  C6 as stated fails: there is no check of the count against the chain. \<^verbatim>\<open>writev\<close>
  reports 10 bytes for a chain of one 4-byte hunk; the function returns the null chain,
  not \<^verbatim>\<open>NGX_CHAIN_ERROR\<close>, leaves \<^verbatim>\<open>c->write->error\<close> clear and adds 10 to \<^verbatim>\<open>c->sent\<close>.
\<close>

theorem surplus_count_counterexample:
  "chain_size [memory_hunk 100 104] = 4
   \<and> ngx_freebsd_sendfile_chain (freebsd 1) [answer 10 (Errno 0) 0] ready_conn [memory_hunk 100 104]
   = Inr \<lparr>ret = Chain [],
          conn = \<lparr>fd = 7, sent = 10, tcp_nopush = 0, write_ready = True, write_error = False,
                  write_kq_eof = False\<rparr>,
          hunks = [memory_hunk 104 104],
          syscalls = [Writev 7 [\<lparr>iov_base = 100, iov_len = 4\<rparr>]]\<rparr>"
  by (simp add: run_defs send_loop.simps sample_defs hunk_defs)

text \<open>
  C3, as the code has it. For a chain of special hunks only, the classifier yields empty
  header and trailer vectors and no file hunk. The dispatcher still calls \<^verbatim>\<open>writev\<close>, with
  the empty header vector. When that call is not interrupted and does not fail fatally,
  the walk passes every link and the function returns the null chain; no cursor moves and
  the write-readiness flag is left as it was.
\<close>

theorem special_chain_passed:
  assumes "list_all ngx_hunk_special cl"
    and "write_ready c" and "\<not> (have_kqueue_event P \<and> write_kq_eof c)"
    and "init_header_ok e" and "init_trailer_ok e"
    and "xfer_rc e = - 1 \<longrightarrow> xfer_errno e = NGX_EAGAIN"
  shows "(\<exists>cl'. classify P e cl = Continue \<lparr>header = [], hsize = 0, file_hunk = None, fsize = 0,
                                            trailer = [], tail = cl'\<rparr>)
    \<and> ngx_freebsd_sendfile_chain P (e # es) c cl =
        Inr \<lparr>ret = Chain [],
             conn = c\<lparr>sent := sent c + (if xfer_rc e > 0 then xfer_rc e else 0)\<rparr>,
             hunks = cl, syscalls = [Writev (fd c) []]\<rparr>"
proof -
  from classify_special [OF assms(1,4,5)] obtain cl' where
    k: "classify P e cl = Continue \<lparr>header = [], hsize = 0, file_hunk = None, fsize = 0,
                                      trailer = [], tail = cl'\<rparr>"
    by blast
  let ?k = "\<lparr>header = [], hsize = 0, file_hunk = None, fsize = 0, trailer = [], tail = cl'\<rparr>"
  let ?n = "if xfer_rc e > 0 then xfer_rc e else 0"
  from assms(6) have d: "dispatch P e c [] ?k =
      Goes_on (c\<lparr>sent := sent c + ?n\<rparr>, [Writev (fd c) []], ?n, False, False)"
    by (auto simp: dispatch_def do_writev_def Let_def)
  have adv: "advance cl ?n = (cl, [])"
    using assms(1) by (rule advance_all_special)
  from final_pass [OF assms(2,3) k d adv, of es] assms(2) have
    "ngx_freebsd_sendfile_chain P (e # es) c cl =
        Inr \<lparr>ret = Chain [], conn = c\<lparr>sent := sent c + ?n\<rparr>,
             hunks = cl, syscalls = [Writev (fd c) []]\<rparr>"
    by (simp add: ready_update)
  with k show ?thesis by blast
qed

theorem special_chain_passed_witness:
  "list_all ngx_hunk_special [flush_hunk, flush_hunk]
   \<and> ngx_freebsd_sendfile_chain (freebsd 1) [answer (- 1) NGX_EAGAIN 0] ready_conn
       [flush_hunk, flush_hunk]
   = Inr \<lparr>ret = Chain [], conn = ready_conn, hunks = [flush_hunk, flush_hunk],
          syscalls = [Writev 7 []]\<rparr>"
proof -
  have s: "list_all ngx_hunk_special [flush_hunk, flush_hunk]"
    by (simp add: sample_defs hunk_defs)
  have r: "write_ready ready_conn"
    and q: "\<not> (have_kqueue_event (freebsd 1) \<and> write_kq_eof ready_conn)"
    and i: "init_header_ok (answer (- 1) NGX_EAGAIN 0)"
    and j: "init_trailer_ok (answer (- 1) NGX_EAGAIN 0)"
    and x: "xfer_rc (answer (- 1) NGX_EAGAIN 0) = - 1 \<longrightarrow> xfer_errno (answer (- 1) NGX_EAGAIN 0) = NGX_EAGAIN"
    by (simp_all add: sample_defs)
  from special_chain_passed [OF s r q i j x, of "[]"] s show ?thesis
    by (simp add: sample_defs)
qed

text \<open>
  C3 as stated fails: for the chain of one flush hunk the function does call \<^verbatim>\<open>writev\<close>,
  with an empty vector, and it returns the null chain, not the chain it was given.
\<close>

theorem special_chain_counterexample:
  "ngx_freebsd_sendfile_chain (freebsd 1) [answer 0 (Errno 0) 0] ready_conn [flush_hunk]
   = Inr \<lparr>ret = Chain [], conn = ready_conn, hunks = [flush_hunk], syscalls = [Writev 7 []]\<rparr>"
  by (simp add: run_defs send_loop.simps sample_defs hunk_defs)

section \<open>Would-block on the first pass\<close>

lemma header_loop_suffix:
  "header_loop m a prev hdr hs cl = Continue (hdr', hs', a', cl') \<Longrightarrow> \<exists>pre. cl = pre @ cl'"
proof (induction cl arbitrary: a prev hdr hs)
  case Nil
  then show ?case by simp
next
  case (Cons h cl)
  have step: "\<exists>pre. h # cl = pre @ cl'" if "\<exists>pre. cl = pre @ cl'"
    using that by (metis append_Cons)
  from Cons.prems show ?case
    by (auto split: if_splits nat.splits intro!: step dest: Cons.IH)
qed

lemma header_loop_length:
  "header_loop m a prev hdr hs cl = Continue (hdr', hs', a', cl') \<Longrightarrow> length cl' \<le> length cl"
  by (drule header_loop_suffix) auto

lemma header_loop_stop:
  "header_loop m a prev hdr hs cl = Continue (hdr', hs', a', cl') \<Longrightarrow> length hdr < m \<Longrightarrow>
   cl' \<noteq> [] \<Longrightarrow> length cl' = length (dropWhile ngx_hunk_special cl) \<Longrightarrow>
   cl' = dropWhile ngx_hunk_special cl \<and> \<not> ngx_hunk_in_memory_only (hd cl')"
proof (induction cl arbitrary: a prev hdr hs)
  case Nil
  then show ?case by simp
next
  case (Cons h cl)
  show ?case
  proof (cases "ngx_hunk_special h")
    case True
    with Cons.prems(1,2) have run: "header_loop m a prev hdr hs cl = Continue (hdr', hs', a', cl')"
      by simp
    from True Cons.prems(4) have len: "length cl' = length (dropWhile ngx_hunk_special cl)"
      by simp
    from Cons.IH [OF run Cons.prems(2,3) len] True show ?thesis
      by auto
  next
    case False
    show ?thesis
    proof (cases "ngx_hunk_in_memory_only h")
      case False
      with \<open>\<not> ngx_hunk_special h\<close> Cons.prems show ?thesis by auto
    next
      case True
      with \<open>\<not> ngx_hunk_special h\<close> Cons.prems(1,2) have "length cl' \<le> length cl"
        by (auto split: if_splits nat.splits dest: header_loop_length)
      with \<open>\<not> ngx_hunk_special h\<close> Cons.prems(4) show ?thesis by simp
    qed
  qed
qed

lemma hunk_ok_file:
  "hunk_ok h \<Longrightarrow> \<not> ngx_hunk_special h \<Longrightarrow> \<not> ngx_hunk_in_memory_only h \<Longrightarrow> NGX_HUNK_FILE \<in> type h"
  by (auto simp: hunk_ok_def ngx_hunk_in_memory_only_def)

lemma classify_tail_none:
  assumes "classify P e cl = Continue k" and "file_hunk k = None"
  obtains a where "header_loop (IOV_MAX P) (push_avail e) NULL [] 0 cl
           = Continue (header k, hsize k, a, tail k)"
    and "tail k = [] \<or> NGX_HUNK_FILE \<notin> type (hd (tail k))"
  using assms
  by (auto simp: classify_def split: if_splits step.splits list.splits prod.splits)

lemma classify_file_some:
  assumes "classify P e cl = Continue k" and "file_hunk k = Some f"
  obtains a cl' where "header_loop (IOV_MAX P) (push_avail e) NULL [] 0 cl
           = Continue (header k, hsize k, a, f # cl')"
    and "NGX_HUNK_FILE \<in> type f"
  using assms
  by (auto simp: classify_def split: if_splits step.splits list.splits prod.splits)

lemma writev_pass_ends:
  assumes "classify P e cl = Continue k" and "file_hunk k = None"
    and "list_all hunk_ok cl" and "0 < IOV_MAX P"
  shows "\<not> (tail k \<noteq> [] \<and> length (tail k) = length (dropWhile ngx_hunk_special cl))"
proof
  assume t: "tail k \<noteq> [] \<and> length (tail k) = length (dropWhile ngx_hunk_special cl)"
  from assms(1,2) obtain a where
    h: "header_loop (IOV_MAX P) (push_avail e) NULL [] 0 cl = Continue (header k, hsize k, a, tail k)"
    and nf: "tail k = [] \<or> NGX_HUNK_FILE \<notin> type (hd (tail k))"
    by (rule classify_tail_none)
  from assms(4) have room: "length ([]::iovec list) < IOV_MAX P"
    by simp
  from t have t1: "tail k \<noteq> []"
    and t2: "length (tail k) = length (dropWhile ngx_hunk_special cl)"
    by simp_all
  from header_loop_stop [OF h room t1 t2]
  have eq: "tail k = dropWhile ngx_hunk_special cl" and nm: "\<not> ngx_hunk_in_memory_only (hd (tail k))"
    by blast+
  from t eq have ns: "\<not> ngx_hunk_special (hd (tail k))"
    by (metis hd_dropWhile)
  from t eq have "hd (tail k) \<in> set cl"
    by (metis hd_in_set set_dropWhileD)
  with assms(3) have "hunk_ok (hd (tail k))"
    by (simp add: list_all_iff)
  from hunk_ok_file [OF this ns nm] nf t show False by simp
qed

lemma file_chain_not_special:
  assumes "classify P e cl = Continue k" and "file_hunk k = Some f"
  shows "\<not> list_all ngx_hunk_special cl"
proof -
  from assms obtain a cl' where
    h: "header_loop (IOV_MAX P) (push_avail e) NULL [] 0 cl = Continue (header k, hsize k, a, f # cl')"
    and f: "NGX_HUNK_FILE \<in> type f"
    by (rule classify_file_some)
  from header_loop_suffix [OF h] have "f \<in> set cl" by auto
  moreover from f have "\<not> ngx_hunk_special f" by (auto dest: special_not_file)
  ultimately show ?thesis by (auto simp: list_all_iff)
qed

text \<open>
  C4, as the code has it. Let the first pass classify a chain of hunks of the data model
  and reach its transfer call, and let that call report would-block with nothing sent.
  Then no cursor of any hunk moves, and the chain returned is the chain given without the
  special hunks at its front: its head is the first hunk that is not special (null if
  there is none). The write-readiness flag is cleared, unless the chain holds special
  hunks only.
\<close>

theorem would_block_leaves_cursors:
  assumes "write_ready c" and "\<not> (have_kqueue_event P \<and> write_kq_eof c)"
    and "classify P e cl = Continue k"
    and "list_all hunk_ok cl" and "0 < IOV_MAX P"
    and "xfer_rc e = - 1" and "xfer_errno e = NGX_EAGAIN"
    and "file_hunk k = None \<or> xfer_sent e = 0"
    and "\<not> (ngx_freebsd_use_tcp_nopush P \<noteq> 0 \<and> tcp_nopush c = 0
            \<and> nopush_rc e = NGX_ERROR \<and> nopush_errno e \<noteq> NGX_EINTR)"
  shows "\<exists>r. ngx_freebsd_sendfile_chain P (e # es) c cl = Inr r
    \<and> ret r = Chain (dropWhile ngx_hunk_special cl)
    \<and> hunks r = cl
    \<and> (write_ready (conn r) \<longleftrightarrow> list_all ngx_hunk_special cl)
    \<and> sent (conn r) = sent c
    \<and> write_error (conn r) = write_error c"
proof -
  have adv: "advance cl 0 = (takeWhile ngx_hunk_special cl, dropWhile ngx_hunk_special cl)"
    by (rule advance_zero_count)
  have nil: "dropWhile ngx_hunk_special cl = [] \<longleftrightarrow> list_all ngx_hunk_special cl"
    by (simp add: dropWhile_eq_Nil_conv list_all_iff)
  show ?thesis
  proof (cases "file_hunk k")
    case None
    with assms(6,7) have d: "dispatch P e c [] k =
        Goes_on (c\<lparr>sent := sent c + 0\<rparr>, [Writev (fd c) (header k)], 0, False, False)"
      by (simp add: dispatch_def do_writev_def Let_def)
    from writev_pass_ends [OF assms(3) None assms(4,5)]
    have "False \<or> \<not> (False \<or> (tail k \<noteq> [] \<and> length (tail k) = length (dropWhile ngx_hunk_special cl)))"
      by simp
    from final_pass [OF assms(1,2,3) d adv this, of es] nil show ?thesis
      by simp
  next
    case (Some f)
    with assms(8) have z: "xfer_sent e = 0" by simp
    from Some assms(6,7,9) z
    have "\<exists>c' calls'. dispatch P e c [] k = Goes_on (c', calls', 0, False, True)"
      by (auto simp: dispatch_def enable_nopush_def do_sendfile_def Let_def)
    then obtain c' calls' where
      d: "dispatch P e c [] k = Goes_on (c', calls', 0, False, True)"
      by blast
    from final_pass [OF assms(1,2,3) d adv, of es] dispatch_conn [OF d]
      file_chain_not_special [OF assms(3) Some]
    show ?thesis by simp
  qed
qed

theorem would_block_leaves_cursors_witness:
  "\<exists>r. ngx_freebsd_sendfile_chain (freebsd 1) [answer (- 1) NGX_EAGAIN 0] ready_conn
          [flush_hunk, file_segment 3 0 10] = Inr r
    \<and> ret r = Chain [file_segment 3 0 10]
    \<and> hunks r = [flush_hunk, file_segment 3 0 10]
    \<and> \<not> write_ready (conn r)
    \<and> sent (conn r) = 0
    \<and> \<not> write_error (conn r)"
proof -
  let ?e = "answer (- 1) NGX_EAGAIN 0"
  let ?k = "\<lparr>header = [], hsize = 0, file_hunk = Some (file_segment 3 0 10), fsize = 10,
             trailer = [], tail = []\<rparr>"
  have r: "write_ready ready_conn"
    and q: "\<not> (have_kqueue_event (freebsd 1) \<and> write_kq_eof ready_conn)"
    and m: "0 < IOV_MAX (freebsd 1)"
    and x: "xfer_rc ?e = - 1" "xfer_errno ?e = NGX_EAGAIN"
    and z: "file_hunk ?k = None \<or> xfer_sent ?e = 0"
    and n: "\<not> (ngx_freebsd_use_tcp_nopush (freebsd 1) \<noteq> 0 \<and> tcp_nopush ready_conn = 0
            \<and> nopush_rc ?e = NGX_ERROR \<and> nopush_errno ?e \<noteq> NGX_EINTR)"
    by (simp_all add: sample_defs NGX_ERROR_def)
  have k: "classify (freebsd 1) ?e [flush_hunk, file_segment 3 0 10] = Continue ?k"
    by (simp add: run_defs sample_defs hunk_defs)
  have ok: "list_all hunk_ok [flush_hunk, file_segment 3 0 10]"
    by (simp add: sample_defs hunk_defs)
  from would_block_leaves_cursors [OF r q k ok m x z n, of "[]"] show ?thesis
    by (simp add: sample_defs hunk_defs)
qed

text \<open>
  C4 as stated fails for a chain that begins with a special hunk. \<^verbatim>\<open>writev\<close> reports
  would-block for the chain of a flush hunk and a 4-byte memory hunk; the chain returned
  starts at the memory hunk, the second link, not at the head of the chain given.
\<close>

theorem would_block_head_counterexample:
  "ngx_freebsd_sendfile_chain (freebsd 1) [answer (- 1) NGX_EAGAIN 0] ready_conn
     [flush_hunk, memory_hunk 100 104]
   = Inr \<lparr>ret = Chain [memory_hunk 100 104],
          conn = \<lparr>fd = 7, sent = 0, tcp_nopush = 0, write_ready = False, write_error = False,
                  write_kq_eof = False\<rparr>,
          hunks = [flush_hunk, memory_hunk 100 104],
          syscalls = [Writev 7 [\<lparr>iov_base = 100, iov_len = 4\<rparr>]]\<rparr>"
  by (simp add: run_defs send_loop.simps sample_defs hunk_defs)

section \<open>The socket mode TCP_NOPUSH\<close>




section \<open>Coalescing in the classifier\<close>

lemma memory_not_special: "ngx_hunk_in_memory_only h \<Longrightarrow> \<not> ngx_hunk_special h"
  by (auto simp: ngx_hunk_in_memory_only_def ngx_hunk_special_def)

lemma file_not_special: "NGX_HUNK_FILE \<in> type h \<Longrightarrow> \<not> ngx_hunk_special h"
  by (auto simp: ngx_hunk_special_def)

lemma file_not_memory_only: "NGX_HUNK_FILE \<in> type h \<Longrightarrow> \<not> ngx_hunk_in_memory_only h"
  by (simp add: ngx_hunk_in_memory_only_def)



lemma header_loop_first:
  "ngx_hunk_in_memory_only h \<Longrightarrow> pos h \<noteq> NULL \<Longrightarrow> 0 < m \<Longrightarrow>
   header_loop m (Suc a) NULL [] 0 (h # cl)
     = header_loop m a (last_h h) [\<lparr>iov_base = pos h, iov_len = last_h h - pos h\<rparr>]
         (last_h h - pos h) cl"
  by (auto simp: memory_not_special)

lemma header_loop_merge:
  "ngx_hunk_in_memory_only h \<Longrightarrow> prev = pos h \<Longrightarrow> length (hdr @ [v]) < m \<Longrightarrow>
   header_loop m a prev (hdr @ [v]) hs (h # cl)
     = header_loop m a (last_h h) (hdr @ [v\<lparr>iov_len := iov_len v + (last_h h - pos h)\<rparr>])
         (hs + (last_h h - pos h)) cl"
  by (simp add: memory_not_special)

lemma header_loop_push:
  "ngx_hunk_in_memory_only h \<Longrightarrow> prev \<noteq> pos h \<Longrightarrow> length hdr < m \<Longrightarrow>
   header_loop m (Suc a) prev hdr hs (h # cl)
     = header_loop m a (last_h h) (hdr @ [\<lparr>iov_base = pos h, iov_len = last_h h - pos h\<rparr>])
         (hs + (last_h h - pos h)) cl"
  by (simp add: memory_not_special)




lemma trailer_loop_at_file:
  "NGX_HUNK_FILE \<in> type f \<Longrightarrow> trailer_loop m a prev trl (f # cl) = Continue (trl, a, f # cl)"
  by (simp add: file_not_special file_not_memory_only)

lemma header_loop_three:
  assumes "ngx_hunk_in_memory_only h1" "ngx_hunk_in_memory_only h2" "ngx_hunk_in_memory_only h3"
    and "last_h h1 = pos h2" "last_h h2 = pos h3" "pos h1 \<noteq> NULL" "1 < m"
  shows "header_loop m (Suc a) NULL [] 0 (h1 # h2 # h3 # rest)
    = header_loop m a (last_h h3)
        [\<lparr>iov_base = pos h1,
          iov_len = (last_h h1 - pos h1) + (last_h h2 - pos h2) + (last_h h3 - pos h3)\<rparr>]
        ((last_h h1 - pos h1) + (last_h h2 - pos h2) + (last_h h3 - pos h3)) rest"
  using assms header_loop_merge [of _ _ "[]"]
  by (simp add: header_loop_first del: header_loop.simps)

lemma header_loop_two:
  assumes "ngx_hunk_in_memory_only h1" "ngx_hunk_in_memory_only h2"
    and "last_h h1 \<noteq> pos h2" "pos h1 \<noteq> NULL" "1 < m"
  shows "header_loop m (Suc (Suc a)) NULL [] 0 (h1 # h2 # rest)
    = header_loop m a (last_h h2)
        [\<lparr>iov_base = pos h1, iov_len = last_h h1 - pos h1\<rparr>,
         \<lparr>iov_base = pos h2, iov_len = last_h h2 - pos h2\<rparr>]
        ((last_h h1 - pos h1) + (last_h h2 - pos h2)) rest"
  using assms header_loop_push [of h2 "last_h h1" "[\<lparr>iov_base = pos h1, iov_len = last_h h1 - pos h1\<rparr>]" m a]
  by (simp add: header_loop_first del: header_loop.simps)



lemma classify_memory_run:
  assumes "header_loop (IOV_MAX P) (push_avail e) NULL [] 0 cl = Continue (hdr, hs, a, [])"
    and "init_header_ok e" "init_trailer_ok e"
  shows "classify P e cl = Continue \<lparr>header = hdr, hsize = hs, file_hunk = None, fsize = 0,
                                     trailer = [], tail = []\<rparr>"
  using assms by (simp add: classify_def)

text \<open>
  C8, as the code has it. With room for two vector entries and two array pushes, and the
  first start cursor not null: a chain of exactly three memory hunks with contiguous
  ranges gets a header vector of exactly one entry, whose length is the sum of the three
  lengths; in a longer chain the three hunks fill one entry of that length and the loop
  goes on with the rest of the chain, which may extend that entry or add entries. A chain
  of exactly two memory hunks whose ranges are not contiguous gets exactly two entries.
\<close>

theorem header_coalescing:
  assumes "ngx_hunk_in_memory_only h1" and "ngx_hunk_in_memory_only h2"
    and "ngx_hunk_in_memory_only h3"
    and "pos h1 \<noteq> NULL" and "1 < IOV_MAX P" and "1 < push_avail e"
    and "init_header_ok e" and "init_trailer_ok e"
  shows "(last_h h1 = pos h2 \<and> last_h h2 = pos h3 \<longrightarrow>
          classify P e [h1, h2, h3]
            = Continue \<lparr>header = [\<lparr>iov_base = pos h1,
                                   iov_len = (last_h h1 - pos h1) + (last_h h2 - pos h2)
                                             + (last_h h3 - pos h3)\<rparr>],
                        hsize = (last_h h1 - pos h1) + (last_h h2 - pos h2) + (last_h h3 - pos h3),
                        file_hunk = None, fsize = 0, trailer = [], tail = []\<rparr>
          \<and> header_loop (IOV_MAX P) (push_avail e) NULL [] 0 (h1 # h2 # h3 # rest)
            = header_loop (IOV_MAX P) (push_avail e - 1) (last_h h3)
                [\<lparr>iov_base = pos h1,
                  iov_len = (last_h h1 - pos h1) + (last_h h2 - pos h2) + (last_h h3 - pos h3)\<rparr>]
                ((last_h h1 - pos h1) + (last_h h2 - pos h2) + (last_h h3 - pos h3)) rest)
    \<and> (last_h h1 \<noteq> pos h2 \<longrightarrow>
          classify P e [h1, h2]
            = Continue \<lparr>header = [\<lparr>iov_base = pos h1, iov_len = last_h h1 - pos h1\<rparr>,
                                  \<lparr>iov_base = pos h2, iov_len = last_h h2 - pos h2\<rparr>],
                        hsize = (last_h h1 - pos h1) + (last_h h2 - pos h2),
                        file_hunk = None, fsize = 0, trailer = [], tail = []\<rparr>)"
proof -
  from assms(6) obtain a where a: "push_avail e = Suc (Suc a)"
    by (metis One_nat_def Suc_lessE less_imp_Suc_add)
  let ?s3 = "(last_h h1 - pos h1) + (last_h h2 - pos h2) + (last_h h3 - pos h3)"
  let ?v3 = "\<lparr>iov_base = pos h1, iov_len = ?s3\<rparr>"
  have three: "header_loop (IOV_MAX P) (push_avail e) NULL [] 0 (h1 # h2 # h3 # rest)
      = header_loop (IOV_MAX P) (push_avail e - 1) (last_h h3) [?v3] ?s3 rest"
    if "last_h h1 = pos h2" "last_h h2 = pos h3" for rest
    using header_loop_three [OF assms(1,2,3) that assms(4,5), of "Suc a" rest] a by simp
  have c3: "classify P e [h1, h2, h3]
      = Continue \<lparr>header = [?v3], hsize = ?s3, file_hunk = None, fsize = 0, trailer = [], tail = []\<rparr>"
    if "last_h h1 = pos h2" "last_h h2 = pos h3"
    using three [OF that, of "[]"] assms(7,8) by (intro classify_memory_run) simp_all
  have c2: "classify P e [h1, h2]
      = Continue \<lparr>header = [\<lparr>iov_base = pos h1, iov_len = last_h h1 - pos h1\<rparr>,
                            \<lparr>iov_base = pos h2, iov_len = last_h h2 - pos h2\<rparr>],
                  hsize = (last_h h1 - pos h1) + (last_h h2 - pos h2),
                  file_hunk = None, fsize = 0, trailer = [], tail = []\<rparr>"
    if "last_h h1 \<noteq> pos h2"
    using header_loop_two [OF assms(1,2) that assms(4,5), of a "[]"] a assms(7,8)
    by (intro classify_memory_run) simp_all
  from three c3 c2 show ?thesis
    by blast
qed

theorem header_coalescing_witness:
  "classify (freebsd 1) (answer 0 (Errno 0) 0)
       [memory_hunk 100 104, memory_hunk 104 108, memory_hunk 108 112]
     = Continue \<lparr>header = [\<lparr>iov_base = 100, iov_len = 12\<rparr>], hsize = 12, file_hunk = None,
                 fsize = 0, trailer = [], tail = []\<rparr>
   \<and> classify (freebsd 1) (answer 0 (Errno 0) 0) [memory_hunk 100 104, memory_hunk 200 204]
     = Continue \<lparr>header = [\<lparr>iov_base = 100, iov_len = 4\<rparr>, \<lparr>iov_base = 200, iov_len = 4\<rparr>],
                 hsize = 8, file_hunk = None, fsize = 0, trailer = [], tail = []\<rparr>"
proof -
  let ?e = "answer 0 (Errno 0) 0"
  have m: "ngx_hunk_in_memory_only (memory_hunk 100 104)"
    "ngx_hunk_in_memory_only (memory_hunk 104 108)"
    "ngx_hunk_in_memory_only (memory_hunk 108 112)"
    "ngx_hunk_in_memory_only (memory_hunk 200 204)"
    by (simp_all add: sample_defs hunk_defs)
  have n: "pos (memory_hunk 100 104) \<noteq> NULL"
    and p: "1 < IOV_MAX (freebsd 1)" "1 < push_avail ?e" "init_header_ok ?e" "init_trailer_ok ?e"
    by (simp_all add: sample_defs NULL_def)
  have adj: "last_h (memory_hunk 100 104) = pos (memory_hunk 104 108)
      \<and> last_h (memory_hunk 104 108) = pos (memory_hunk 108 112)"
    and gap: "last_h (memory_hunk 100 104) \<noteq> pos (memory_hunk 200 204)"
    by (simp_all add: sample_defs)
  from header_coalescing [OF m(1,2,3) n p] adj
  have three: "classify (freebsd 1) ?e [memory_hunk 100 104, memory_hunk 104 108, memory_hunk 108 112]
     = Continue \<lparr>header = [\<lparr>iov_base = 100, iov_len = 12\<rparr>], hsize = 12, file_hunk = None,
                 fsize = 0, trailer = [], tail = []\<rparr>"
    by (simp add: memory_hunk_def)
  from header_coalescing [OF m(1,4,3) n p] gap
  have two: "classify (freebsd 1) ?e [memory_hunk 100 104, memory_hunk 200 204]
     = Continue \<lparr>header = [\<lparr>iov_base = 100, iov_len = 4\<rparr>, \<lparr>iov_base = 200, iov_len = 4\<rparr>],
                 hsize = 8, file_hunk = None, fsize = 0, trailer = [], tail = []\<rparr>"
    by (simp add: memory_hunk_def)
  from three two show ?thesis
    by blast
qed

text \<open>
  C8 as stated fails for a chain longer than its first three hunks: when a fourth memory
  hunk follows that is not contiguous with the third, the header vector has two entries.
\<close>

theorem header_coalescing_counterexample:
  "classify (freebsd 1) (answer 0 (Errno 0) 0)
     [memory_hunk 100 104, memory_hunk 104 108, memory_hunk 108 112, memory_hunk 200 204]
   = Continue \<lparr>header = [\<lparr>iov_base = 100, iov_len = 12\<rparr>, \<lparr>iov_base = 200, iov_len = 4\<rparr>],
               hsize = 16, file_hunk = None, fsize = 0, trailer = [], tail = []\<rparr>"
  by (simp add: run_defs sample_defs hunk_defs)

lemma file_loop_acc:
  "file_loop ffd fprev fs cl
     = (fs + fst (file_loop ffd fprev 0 cl), snd (file_loop ffd fprev 0 cl))"
proof (induction cl arbitrary: fprev fs)
  case Nil
  show ?case by simp
next
  case (Cons h cl)
  show ?case
    using Cons.IH [of "file_last h" "fs + (file_last h - file_pos h)"]
      Cons.IH [of "file_last h" "file_last h - file_pos h"]
    by auto
qed

lemma file_loop_length: "length (snd (file_loop ffd fprev fs cl)) \<le> length cl"
  by (induction cl arbitrary: fprev fs) (auto simp: le_SucI)

lemma trailer_loop_length:
  "trailer_loop m a prev trl cl = Continue (trl', a', cl') \<Longrightarrow> length cl' \<le> length cl"
proof (induction cl arbitrary: a prev trl)
  case Nil
  then show ?case by simp
next
  case (Cons h cl)
  from Cons.prems show ?case
    by (auto split: if_splits nat.splits dest!: Cons.IH)
qed

text \<open>
  C9, as the code has it. Take any chain that contains two consecutive file hunks of which
  the first is the seed of the file region: the hunk the header loop stops at, whatever
  memory and special hunks stand in front of it. The second joins the region exactly when
  both have the same \<^verbatim>\<open>fd\<close> and the first ends at the offset where the second starts. The
  length of the region is then the sum of the two ranges and of the ranges of the hunks
  coalesced after them (exactly the sum of the two when the chain ends there), and the
  tail lies behind the second hunk. Otherwise the region is the first hunk alone, with the
  length of its range, and the second hunk is the tail. The same test decides for a first
  hunk that was itself coalesced into the region.
\<close>

theorem file_coalescing:
  assumes "NGX_HUNK_FILE \<in> type f1" and "NGX_HUNK_FILE \<in> type f2"
    and "init_header_ok e" and "init_trailer_ok e"
    and "header_loop (IOV_MAX P) (push_avail e) NULL [] 0 (pre @ f1 # f2 # rest)
           = Continue (hdr, hs, a, f1 # f2 # rest)"
  shows "file_loop (file_fd f1) (file_last f1) (file_last f1 - file_pos f1) (f2 # rest)
      = (if file_fd f1 = file_fd f2 \<and> file_last f1 = file_pos f2
         then file_loop (file_fd f1) (file_last f2)
                ((file_last f1 - file_pos f1) + (file_last f2 - file_pos f2)) rest
         else (file_last f1 - file_pos f1, f2 # rest))
    \<and> (\<not> (file_fd f1 = file_fd f2 \<and> file_last f1 = file_pos f2) \<longrightarrow>
          classify P e (pre @ f1 # f2 # rest)
            = Continue \<lparr>header = hdr, hsize = hs, file_hunk = Some f1,
                        fsize = file_last f1 - file_pos f1, trailer = [], tail = f2 # rest\<rparr>)
    \<and> (file_fd f1 = file_fd f2 \<and> file_last f1 = file_pos f2 \<longrightarrow>
          (\<forall>k. classify P e (pre @ f1 # f2 # rest) = Continue k \<longrightarrow>
             header k = hdr \<and> hsize k = hs \<and> file_hunk k = Some f1
             \<and> fsize k = (file_last f1 - file_pos f1) + (file_last f2 - file_pos f2)
                         + fst (file_loop (file_fd f1) (file_last f2) 0 rest)
             \<and> length (tail k) \<le> length rest))
    \<and> (file_fd f1 = file_fd f2 \<and> file_last f1 = file_pos f2 \<and> rest = [] \<longrightarrow>
          classify P e (pre @ [f1, f2])
            = Continue \<lparr>header = hdr, hsize = hs, file_hunk = Some f1,
                        fsize = (file_last f1 - file_pos f1) + (file_last f2 - file_pos f2),
                        trailer = [], tail = []\<rparr>)
    \<and> (\<forall>ffd fprev fs. ffd = file_fd f1 \<and> fprev = file_pos f1 \<longrightarrow>
          file_loop ffd fprev fs (f1 # f2 # rest)
            = (if file_fd f1 = file_fd f2 \<and> file_last f1 = file_pos f2
               then file_loop ffd (file_last f2)
                      (fs + (file_last f1 - file_pos f1) + (file_last f2 - file_pos f2)) rest
               else (fs + (file_last f1 - file_pos f1), f2 # rest)))"
proof -
  let ?cond = "file_fd f1 = file_fd f2 \<and> file_last f1 = file_pos f2"
  let ?s1 = "file_last f1 - file_pos f1"
  let ?s2 = "file_last f2 - file_pos f2"
  have loop: "file_loop (file_fd f1) (file_last f1) ?s1 (f2 # rest)
      = (if ?cond then file_loop (file_fd f1) (file_last f2) (?s1 + ?s2) rest
         else (?s1, f2 # rest))"
    using assms(2) by simp
  have break: "classify P e (pre @ f1 # f2 # rest)
      = Continue \<lparr>header = hdr, hsize = hs, file_hunk = Some f1, fsize = ?s1, trailer = [],
                  tail = f2 # rest\<rparr>"
    if "\<not> ?cond"
    using assms that
    by (auto simp: classify_def loop trailer_loop_at_file
        simp del: header_loop.simps(2) file_loop.simps(2) trailer_loop.simps(2))
  have join: "header k = hdr \<and> hsize k = hs \<and> file_hunk k = Some f1
      \<and> fsize k = ?s1 + ?s2 + fst (file_loop (file_fd f1) (file_last f2) 0 rest)
      \<and> length (tail k) \<le> length rest"
    if c: "?cond" and k: "classify P e (pre @ f1 # f2 # rest) = Continue k" for k
  proof -
    obtain fs cl'' where fl: "file_loop (file_fd f1) (file_last f2) (?s1 + ?s2) rest = (fs, cl'')"
      by (cases "file_loop (file_fd f1) (file_last f2) (?s1 + ?s2) rest")
    from fl file_loop_acc [of "file_fd f1" "file_last f2" "?s1 + ?s2" rest]
    have fs: "fs = ?s1 + ?s2 + fst (file_loop (file_fd f1) (file_last f2) 0 rest)"
      by simp
    from fl file_loop_length [of "file_fd f1" "file_last f2" "?s1 + ?s2" rest]
    have len: "length cl'' \<le> length rest"
      by simp
    from k assms c fl loop obtain trl a' cl''' where
      t: "trailer_loop (IOV_MAX P) a NULL [] cl'' = Continue (trl, a', cl''')"
      and kk: "k = \<lparr>header = hdr, hsize = hs, file_hunk = Some f1, fsize = fs, trailer = trl,
                    tail = cl'''\<rparr>"
      by (auto simp: classify_def split: step.splits
          simp del: header_loop.simps(2) file_loop.simps(2) trailer_loop.simps(2))
    from trailer_loop_length [OF t] len have "length cl''' \<le> length rest"
      by simp
    with kk fs show ?thesis by simp
  qed
  have two: "classify P e (pre @ [f1, f2])
      = Continue \<lparr>header = hdr, hsize = hs, file_hunk = Some f1, fsize = ?s1 + ?s2,
                  trailer = [], tail = []\<rparr>"
    if "?cond" "rest = []"
  proof -
    from that loop have "file_loop (file_fd f1) (file_last f1) ?s1 [f2] = (?s1 + ?s2, [])"
      by simp
    with assms(1,3,4,5) that(2) show ?thesis
      by (simp add: classify_def
          del: header_loop.simps(2) file_loop.simps(2) trailer_loop.simps(2))
  qed
  have mid: "file_loop ffd fprev fs (f1 # f2 # rest)
      = (if ?cond then file_loop ffd (file_last f2) (fs + ?s1 + ?s2) rest
         else (fs + ?s1, f2 # rest))"
    if "ffd = file_fd f1" "fprev = file_pos f1" for ffd fprev fs
    using assms(1,2) that by simp
  from loop break join two mid show ?thesis
    by blast
qed

theorem file_coalescing_witness:
  "header_loop (IOV_MAX (freebsd 1)) (push_avail (answer 0 (Errno 0) 0)) NULL [] 0
     ([memory_hunk 100 104, flush_hunk] @ [file_segment 3 0 10, file_segment 3 10 20])
     = Continue ([\<lparr>iov_base = 100, iov_len = 4\<rparr>], 4, 2047,
                 [file_segment 3 0 10, file_segment 3 10 20])
   \<and> classify (freebsd 1) (answer 0 (Errno 0) 0)
       ([memory_hunk 100 104, flush_hunk] @ [file_segment 3 0 10, file_segment 3 10 20])
     = Continue \<lparr>header = [\<lparr>iov_base = 100, iov_len = 4\<rparr>], hsize = 4,
                 file_hunk = Some (file_segment 3 0 10), fsize = 20, trailer = [], tail = []\<rparr>
   \<and> classify (freebsd 1) (answer 0 (Errno 0) 0)
       ([memory_hunk 100 104, flush_hunk] @ [file_segment 3 0 10, file_segment 4 10 20])
     = Continue \<lparr>header = [\<lparr>iov_base = 100, iov_len = 4\<rparr>], hsize = 4,
                 file_hunk = Some (file_segment 3 0 10), fsize = 10, trailer = [],
                 tail = [file_segment 4 10 20]\<rparr>"
proof -
  let ?e = "answer 0 (Errno 0) 0"
  let ?pre = "[memory_hunk 100 104, flush_hunk]"
  have f: "NGX_HUNK_FILE \<in> type (file_segment 3 0 10)"
    "NGX_HUNK_FILE \<in> type (file_segment 3 10 20)"
    "NGX_HUNK_FILE \<in> type (file_segment 4 10 20)"
    and i: "init_header_ok ?e" "init_trailer_ok ?e"
    by (simp_all add: sample_defs)
  have h1: "header_loop (IOV_MAX (freebsd 1)) (push_avail ?e) NULL [] 0
      (?pre @ file_segment 3 0 10 # file_segment 3 10 20 # [])
      = Continue ([\<lparr>iov_base = 100, iov_len = 4\<rparr>], 4, 2047,
                  file_segment 3 0 10 # file_segment 3 10 20 # [])"
    by (simp add: run_defs sample_defs hunk_defs)
  have h2: "header_loop (IOV_MAX (freebsd 1)) (push_avail ?e) NULL [] 0
      (?pre @ file_segment 3 0 10 # file_segment 4 10 20 # [])
      = Continue ([\<lparr>iov_base = 100, iov_len = 4\<rparr>], 4, 2047,
                  file_segment 3 0 10 # file_segment 4 10 20 # [])"
    by (simp add: run_defs sample_defs hunk_defs)
  from file_coalescing [OF f(1,2) i h1]
  have same: "classify (freebsd 1) ?e (?pre @ [file_segment 3 0 10, file_segment 3 10 20])
     = Continue \<lparr>header = [\<lparr>iov_base = 100, iov_len = 4\<rparr>], hsize = 4,
                 file_hunk = Some (file_segment 3 0 10), fsize = 20, trailer = [], tail = []\<rparr>"
    by (simp add: file_segment_def)
  from file_coalescing [OF f(1,3) i h2]
  have other: "classify (freebsd 1) ?e (?pre @ [file_segment 3 0 10, file_segment 4 10 20])
     = Continue \<lparr>header = [\<lparr>iov_base = 100, iov_len = 4\<rparr>], hsize = 4,
                 file_hunk = Some (file_segment 3 0 10), fsize = 10, trailer = [],
                 tail = [file_segment 4 10 20]\<rparr>"
    by (simp add: file_segment_def)
  from h1 same other show ?thesis
    by simp
qed

text \<open>
  C9 as stated fails in two ways. Three contiguous hunks of one file make a region of 30
  bytes, not of the 20 bytes of two of them. And two contiguous hunks of one file that
  stand behind a hunk of another file are not coalesced by the classifier: the region is
  the first hunk alone and both are left in the tail.
\<close>

theorem file_coalescing_counterexample:
  "classify (freebsd 1) (answer 0 (Errno 0) 0)
     [file_segment 3 0 10, file_segment 3 10 20, file_segment 3 20 30]
   = Continue \<lparr>header = [], hsize = 0, file_hunk = Some (file_segment 3 0 10), fsize = 30,
               trailer = [], tail = []\<rparr>
   \<and> classify (freebsd 1) (answer 0 (Errno 0) 0)
     [file_segment 3 0 10, file_segment 4 0 10, file_segment 4 10 20]
   = Continue \<lparr>header = [], hsize = 0, file_hunk = Some (file_segment 3 0 10), fsize = 10,
               trailer = [], tail = [file_segment 4 0 10, file_segment 4 10 20]\<rparr>"
  by (simp add: run_defs sample_defs hunk_defs)









end
